theory Spec2Isabelle
  imports Complex_Main
begin

section \<open>Doubles\<close>

text \<open>
  The coordinates of the source are C++ \<^verbatim>\<open>double\<close>s. The model keeps the special values
  the source itself relies on (\<^verbatim>\<open>INF\<close> bounds the root rectangle, and \<^verbatim>\<open>INF - INF\<close> is
  a NaN) and idealises every finite double as a real number: differences are exact, with
  no rounding, overflow or underflow, and the rounding of \<^verbatim>\<open>std::hypot\<close> is a parameter.
  All comparisons of the source are comparisons of doubles, which are exact on finite
  values.
\<close>

datatype dbl = NaN | NInf | Fin real | PInf

text \<open>The built-in \<^verbatim>\<open><\<close> and \<^verbatim>\<open><=\<close> of doubles: false as soon as one side is a NaN.\<close>

fun dlt :: "dbl \<Rightarrow> dbl \<Rightarrow> bool" where
  "dlt NaN b = False"
| "dlt a NaN = False"
| "dlt PInf b = False"
| "dlt a NInf = False"
| "dlt NInf b = True"
| "dlt a PInf = True"
| "dlt (Fin a) (Fin b) = (a < b)"

fun dle :: "dbl \<Rightarrow> dbl \<Rightarrow> bool" where
  "dle NaN b = False"
| "dle a NaN = False"
| "dle NInf b = True"
| "dle a PInf = True"
| "dle PInf b = False"
| "dle a NInf = False"
| "dle (Fin a) (Fin b) = (a \<le> b)"

definition dgt :: "dbl \<Rightarrow> dbl \<Rightarrow> bool" where
  "dgt a b = dlt b a"

definition dge :: "dbl \<Rightarrow> dbl \<Rightarrow> bool" where
  "dge a b = dle b a"

text \<open>Subtraction and \<^verbatim>\<open>std::abs\<close>, with the IEEE results on infinities.\<close>

fun dsub :: "dbl \<Rightarrow> dbl \<Rightarrow> dbl" where
  "dsub NaN b = NaN"
| "dsub a NaN = NaN"
| "dsub PInf PInf = NaN"
| "dsub NInf NInf = NaN"
| "dsub PInf b = PInf"
| "dsub NInf b = NInf"
| "dsub (Fin a) PInf = NInf"
| "dsub (Fin a) NInf = PInf"
| "dsub (Fin a) (Fin b) = Fin (a - b)"

fun dabs :: "dbl \<Rightarrow> dbl" where
  "dabs NaN = NaN"
| "dabs NInf = PInf"
| "dabs PInf = PInf"
| "dabs (Fin a) = Fin \<bar>a\<bar>"

text \<open>
  \<^verbatim>\<open>std::hypot\<close>. An infinite argument gives infinity even beside a NaN. When one
  argument is zero the result is the magnitude of the other (C, Annex F). On two finite
  arguments that are not zero the result is a double near the root of the sum of the
  squares; which double it is, and when it overflows to infinity, is the library's
  rounding. That case is the parameter \<open>std_hypot\<close>: the library function on finite,
  non-zero arguments. Every statement about distances holds for each such function.
\<close>

fun hypot :: "(real \<Rightarrow> real \<Rightarrow> dbl) \<Rightarrow> dbl \<Rightarrow> dbl \<Rightarrow> dbl" where
  "hypot std_hypot (Fin a) (Fin b) =
     (if b = 0 then Fin \<bar>a\<bar> else if a = 0 then Fin \<bar>b\<bar> else std_hypot a b)"
| "hypot std_hypot a b =
     (if a = PInf \<or> a = NInf \<or> b = PInf \<or> b = NInf then PInf else NaN)"

text \<open>\<^verbatim>\<open>std::min(a, b)\<close> is \<^verbatim>\<open>(b < a) ? b : a\<close>.\<close>

definition dmin :: "dbl \<Rightarrow> dbl \<Rightarrow> dbl" where
  "dmin a b = (if dlt b a then b else a)"

text \<open>\<^verbatim>\<open>std::min_element\<close>: the first element that no later element is below.\<close>

fun min_element_from :: "dbl \<Rightarrow> dbl list \<Rightarrow> dbl" where
  "min_element_from smallest [] = smallest"
| "min_element_from smallest (v # vs) =
     min_element_from (if dlt v smallest then v else smallest) vs"

definition INFd :: dbl where
  "INFd = PInf"

definition dneg :: "dbl \<Rightarrow> dbl" where
  "dneg a = (case a of NaN \<Rightarrow> NaN | NInf \<Rightarrow> PInf | PInf \<Rightarrow> NInf | Fin r \<Rightarrow> Fin (- r))"

text \<open>\<^verbatim>\<open>std::numeric_limits<double>::epsilon()\<close> is \<open>2\<^sup>-\<^sup>5\<^sup>2\<close>.\<close>

definition EPS :: dbl where
  "EPS = Fin (1 / 2 ^ 52)"

definition double_equal :: "dbl \<Rightarrow> dbl \<Rightarrow> bool" where
  "double_equal x y = dlt (dabs (dsub x y)) EPS"

section \<open>Points and rectangles (primitives.h)\<close>

datatype point = Point (px: dbl) (py: dbl)

definition distance :: "(real \<Rightarrow> real \<Rightarrow> dbl) \<Rightarrow> point \<Rightarrow> point \<Rightarrow> dbl" where
  "distance std_hypot this another =
     hypot std_hypot (dsub (px this) (px another)) (dsub (py this) (py another))"

text \<open>\<^verbatim>\<open>Point::operator<\<close> and \<^verbatim>\<open>Point::operator==\<close>.\<close>

definition plt :: "point \<Rightarrow> point \<Rightarrow> bool" where
  "plt this another =
     (if double_equal (px this) (px another) then
        (if double_equal (py this) (py another) then False
         else dlt (py this) (py another))
      else dlt (px this) (px another))"

definition peq :: "point \<Rightarrow> point \<Rightarrow> bool" where
  "peq this another =
     (double_equal (px this) (px another) \<and> double_equal (py this) (py another))"

datatype rect = Rect (left_bottom: point) (right_top: point)

definition xmin :: "rect \<Rightarrow> dbl" where "xmin r = px (left_bottom r)"
definition ymin :: "rect \<Rightarrow> dbl" where "ymin r = py (left_bottom r)"
definition xmax :: "rect \<Rightarrow> dbl" where "xmax r = px (right_top r)"
definition ymax :: "rect \<Rightarrow> dbl" where "ymax r = py (right_top r)"

definition rcontains :: "rect \<Rightarrow> point \<Rightarrow> bool" where
  "rcontains r p =
     (dle (px p) (xmax r) \<and> dge (px p) (xmin r) \<and>
      dle (py p) (ymax r) \<and> dge (py p) (ymin r))"

definition intersects_impl :: "rect \<Rightarrow> rect \<Rightarrow> bool" where
  "intersects_impl this another =
     (rcontains this (Point (xmin another) (ymin another)) \<or>
      rcontains this (Point (xmin another) (ymax another)) \<or>
      rcontains this (Point (xmax another) (ymin another)) \<or>
      rcontains this (Point (xmax another) (ymax another)))"

definition intersects :: "rect \<Rightarrow> rect \<Rightarrow> bool" where
  "intersects this another =
     (intersects_impl this another \<or> intersects_impl another this)"

definition rdistance :: "(real \<Rightarrow> real \<Rightarrow> dbl) \<Rightarrow> rect \<Rightarrow> point \<Rightarrow> dbl" where
  "rdistance std_hypot r p =
     (if rcontains r p then Fin 0
      else min_element_from
        (distance std_hypot p (Point (xmin r) (ymin r)))
        [distance std_hypot p (Point (xmin r) (ymax r)),
         distance std_hypot p (Point (xmax r) (ymin r)),
         distance std_hypot p (Point (xmax r) (ymax r)),
         (if dle (px p) (xmax r) \<and> dge (px p) (xmin r)
          then dmin (dabs (dsub (py p) (ymin r))) (dabs (dsub (py p) (ymax r)))
          else INFd),
         (if dle (py p) (ymax r) \<and> dge (py p) (ymin r)
          then dmin (dabs (dsub (px p) (xmin r))) (dabs (dsub (px p) (xmax r)))
          else INFd)])"

section \<open>The index (2dtree.cpp)\<close>

datatype orientation = Vertical | Horizontal

fun next_orientation :: "orientation \<Rightarrow> orientation" where
  "next_orientation Vertical = Horizontal"
| "next_orientation Horizontal = Vertical"

text \<open>
  A \<^verbatim>\<open>std::shared_ptr<Node>\<close> is \<open>Null\<close> or a node with its point, orientation, children
  and cached size. The index never shares a node between two parents, so the pointer
  structure is a tree of values. The cached size is a \<^verbatim>\<open>size_t\<close>; it only ever grows by
  one per visited node of a \<^verbatim>\<open>put\<close>, so it is a natural number here.
\<close>

datatype node =
  Null
| Node (npoint: point) (norientation: orientation) (nleft: node) (nright: node) (nsize: nat)

text \<open>The routing test shared by \<^verbatim>\<open>put\<close> and \<^verbatim>\<open>contains\<close>.\<close>

definition goes_right :: "orientation \<Rightarrow> point \<Rightarrow> point \<Rightarrow> bool" where
  "goes_right ori key p =
     ((ori = Vertical \<and> dge (px key) (px p)) \<or>
      (ori = Horizontal \<and> dge (py key) (py p)))"

fun contains :: "node \<Rightarrow> point \<Rightarrow> bool" where
  "contains Null key = False"
| "contains (Node p ori l r sz) key =
     (if peq p key then True
      else if goes_right ori key p then contains r key
      else contains l key)"



definition size_of :: "node \<Rightarrow> nat" where
  "size_of rt = (case rt of Null \<Rightarrow> 0 | Node p ori l r sz \<Rightarrow> sz)"

definition empty_index :: "node \<Rightarrow> bool" where
  "empty_index rt = (rt = Null \<or> size_of rt = 0)"

text \<open>
  The loop of \<^verbatim>\<open>put\<close>: every visited node that is not equal to the key has its size
  incremented before the descent continues, whether or not a node is attached in the end.
  \<open>now_orientation\<close> is the loop's own counter of the depth parity; the routing reads the
  orientation stored in the node.
\<close>

fun put_loop :: "orientation \<Rightarrow> point \<Rightarrow> node \<Rightarrow> node" where
  "put_loop now_orientation key Null = Node key now_orientation Null Null 1"
| "put_loop now_orientation key (Node p ori l r sz) =
     (if peq key p then Node p ori l r sz
      else if goes_right ori key p
        then Node p ori l (put_loop (next_orientation now_orientation) key r) (sz + 1)
        else Node p ori (put_loop (next_orientation now_orientation) key l) r (sz + 1))"

definition put :: "node \<Rightarrow> point \<Rightarrow> node" where
  "put rt key = put_loop Vertical key rt"

text \<open>
  A point that can be compared with itself: both coordinates are finite. \<open>apart\<close> says
  that two coordinates are identical or differ by at least the tolerance, the situation in
  which the tolerant equality is the exact one.
\<close>

fun is_fin :: "dbl \<Rightarrow> bool" where
  "is_fin (Fin a) = True"
| "is_fin a = False"

definition finite_point :: "point \<Rightarrow> bool" where
  "finite_point p = (is_fin (px p) \<and> is_fin (py p))"

definition apart :: "dbl \<Rightarrow> dbl \<Rightarrow> bool" where
  "apart x y = (x = y \<or> \<not> double_equal x y)"

definition separated :: "point \<Rightarrow> point \<Rightarrow> bool" where
  "separated p q = (apart (px p) (px q) \<and> apart (py p) (py q))"

subsection \<open>The cached size\<close>

text \<open>
  The invariant of the node model: the cached size is one plus the cached sizes of the
  children that are present.
\<close>

fun size_invariant :: "node \<Rightarrow> bool" where
  "size_invariant Null = True"
| "size_invariant (Node p ori l r sz) =
     (sz = 1 + size_of l + size_of r \<and> size_invariant l \<and> size_invariant r)"

text \<open>The nodes reachable from a root, counted and listed.\<close>

fun count_nodes :: "node \<Rightarrow> nat" where
  "count_nodes Null = 0"
| "count_nodes (Node p ori l r sz) = 1 + count_nodes l + count_nodes r"

fun points_of :: "node \<Rightarrow> point list" where
  "points_of Null = []"
| "points_of (Node p ori l r sz) = p # points_of l @ points_of r"




subsection \<open>Bulk construction\<close>

text \<open>
  \<^verbatim>\<open>std::sort\<close> with the comparator of \<^verbatim>\<open>balancing\<close>. The standard leaves the order of
  elements that the comparator does not separate open; the model is the stable insertion
  sort, one of the permitted results.
\<close>

definition axis_less :: "orientation \<Rightarrow> point \<Rightarrow> point \<Rightarrow> bool" where
  "axis_less now p1 p2 =
     (if now = Vertical then dlt (px p1) (px p2) else dlt (py p1) (py p2))"

fun insert_sorted :: "orientation \<Rightarrow> point \<Rightarrow> point list \<Rightarrow> point list" where
  "insert_sorted now p [] = [p]"
| "insert_sorted now p (q # qs) =
     (if axis_less now q p then q # insert_sorted now p qs else p # q # qs)"

fun sort_points :: "orientation \<Rightarrow> point list \<Rightarrow> point list" where
  "sort_points now [] = []"
| "sort_points now (p # ps) = insert_sorted now p (sort_points now ps)"

lemma length_insert_sorted: "length (insert_sorted now p qs) = Suc (length qs)"
  by (induction qs) simp_all

lemma length_sort_points: "length (sort_points now ps) = length ps"
  by (induction ps) (simp_all add: length_insert_sorted)

text \<open>
  \<^verbatim>\<open>balancing(begin, end, now)\<close> on the range as a list: sort it, put the element at
  \<^verbatim>\<open>(end - begin) / 2\<close>, then balance what lies before it and what lies after it, each
  with the other orientation. The index is threaded through.
\<close>

function balancing :: "orientation \<Rightarrow> point list \<Rightarrow> node \<Rightarrow> node" where
  "balancing now ps rt =
     (if ps = [] then rt
      else balancing (next_orientation now)
             (drop (Suc (length ps div 2)) (sort_points now ps))
             (balancing (next_orientation now)
                (take (length ps div 2) (sort_points now ps))
                (put rt (sort_points now ps ! (length ps div 2)))))"
  by pat_completeness auto
termination
  by (relation "measure (\<lambda>(now, ps, rt). length ps)")
     (auto simp: length_sort_points)

declare balancing.simps [simp del]

text \<open>
  \<^verbatim>\<open>read\<close>: the file as the sequence of its whitespace-separated numbers. \<^verbatim>\<open>in >> x\<close>
  ends the loop when no token is left. \<^verbatim>\<open>in >> y\<close> is not tested: when no token is left
  the extraction fails before it stores anything, \<open>y\<close> keeps the value it had, and the
  point is appended all the same. Before the first pair \<open>y\<close> is uninitialised: \<open>y0\<close>
  stands for whatever it holds.
\<close>

fun read_loop :: "dbl \<Rightarrow> point list \<Rightarrow> dbl list \<Rightarrow> point list" where
  "read_loop y result [] = result"
| "read_loop y result [x] = result @ [Point x y]"
| "read_loop y result (x # y' # rest) = read_loop y' (result @ [Point x y']) rest"

definition read :: "dbl \<Rightarrow> dbl list \<Rightarrow> point list" where
  "read y0 tokens = read_loop y0 [] tokens"

text \<open>
  The constructor: an empty file name gives the empty index, otherwise the points read
  from the file are balanced, starting with \<open>Vertical\<close>.
\<close>

definition PointSet :: "dbl \<Rightarrow> dbl list option \<Rightarrow> node" where
  "PointSet y0 file =
     (case file of
        None \<Rightarrow> Null
      | Some tokens \<Rightarrow> balancing Vertical (read y0 tokens) Null)"

text \<open>
  \<open>deduplicate_within_epsilon\<close> is not a function of the source: it follows the words
  of the specification, to be compared with \<^verbatim>\<open>size()\<close>. An element is dropped when an
  element kept before it equals it within epsilon.
\<close>

fun deduplicate_within_epsilon :: "point list \<Rightarrow> point list \<Rightarrow> point list" where
  "deduplicate_within_epsilon kept [] = kept"
| "deduplicate_within_epsilon kept (p # ps) =
     deduplicate_within_epsilon (if list_ex (\<lambda>q. peq q p) kept then kept else kept @ [p]) ps"

section \<open>Queries\<close>

subsection \<open>Result sets, the detached chain and the iterator\<close>

text \<open>
  A \<^verbatim>\<open>std::set\<close> of points, as the library implements it: a red-black tree of the
  elements, ordered by \<^verbatim>\<open>Point::operator<\<close>. The comparison is not transitive, so
  which elements an insertion meets depends on the shape of the tree, and the model keeps
  the tree with its colours.

  \<^verbatim>\<open>insert\<close> first walks down from the root, left where the new point is below the
  element and right otherwise. \<open>descend\<close> records the walk, innermost step first: the
  side taken, the colour and the element of the node, and its other subtree.
\<close>

datatype color = Red | Black

datatype rb_tree = RBLeaf | RBNode color rb_tree point rb_tree

datatype side = GoLeft | GoRight

type_synonym step = "side \<times> color \<times> point \<times> rb_tree"

fun descend :: "point \<Rightarrow> rb_tree \<Rightarrow> step list \<Rightarrow> step list" where
  "descend k RBLeaf path = path"
| "descend k (RBNode c l p r) path =
     (if plt k p then descend k l ((GoLeft, c, p, r) # path)
      else descend k r ((GoRight, c, p, l) # path))"

text \<open>The tree around a subtree, put back along the walk.\<close>

fun rebuild :: "rb_tree \<Rightarrow> step list \<Rightarrow> rb_tree" where
  "rebuild t [] = t"
| "rebuild t ((GoLeft, c, p, other) # path) = rebuild (RBNode c t p other) path"
| "rebuild t ((GoRight, c, p, other) # path) = rebuild (RBNode c other p t) path"

text \<open>
  The element the new point is compared with once more at the end of the walk: the last
  node itself when the walk ended to its right, its in-order predecessor when it ended to
  its left, and none when the walk never went right (the position is the first of the
  set). That element is the innermost node the walk left on the right.
\<close>

fun predecessor :: "step list \<Rightarrow> point option" where
  "predecessor [] = None"
| "predecessor ((GoRight, c, p, other) # path) = Some p"
| "predecessor ((GoLeft, c, p, other) # path) = predecessor path"

text \<open>
  The loop of the library's insert-and-rebalance on the red node \<open>x\<close>, given by its
  subtrees and its element, below the walk. With a black parent, or at the root, it ends.
  With a red parent and a red uncle both become black, the grandparent red, and the loop
  goes on from the grandparent. With a red parent and an uncle that is black or absent,
  one or two rotations put a black node above two red ones and the loop ends. The root is
  black whenever an insertion starts, so a red parent has a parent of its own.
\<close>

fun rebalance :: "rb_tree \<Rightarrow> point \<Rightarrow> rb_tree \<Rightarrow> step list \<Rightarrow> rb_tree" where
  "rebalance xl xk xr [] = RBNode Red xl xk xr"
| "rebalance xl xk xr [s] = rebuild (RBNode Red xl xk xr) [s]"
| "rebalance xl xk xr ((d, pc, pk, sib) # (gd, gc, gk, unc) # path) =
     (if pc = Black then
        rebuild (RBNode Red xl xk xr) ((d, pc, pk, sib) # (gd, gc, gk, unc) # path)
      else if gd = GoLeft then
        (case unc of
           RBNode Red ul uk ur \<Rightarrow>
             rebalance
               (if d = GoLeft then RBNode Black (RBNode Red xl xk xr) pk sib
                else RBNode Black sib pk (RBNode Red xl xk xr))
               gk (RBNode Black ul uk ur) path
         | _ \<Rightarrow>
             rebuild
               (if d = GoRight then
                  RBNode Black (RBNode Red sib pk xl) xk (RBNode Red xr gk unc)
                else RBNode Black (RBNode Red xl xk xr) pk (RBNode Red sib gk unc))
               path)
      else
        (case unc of
           RBNode Red ul uk ur \<Rightarrow>
             rebalance (RBNode Black ul uk ur) gk
               (if d = GoLeft then RBNode Black (RBNode Red xl xk xr) pk sib
                else RBNode Black sib pk (RBNode Red xl xk xr))
               path
         | _ \<Rightarrow>
             rebuild
               (if d = GoLeft then
                  RBNode Black (RBNode Red unc gk xl) xk (RBNode Red xr pk sib)
                else RBNode Black (RBNode Red unc gk sib) pk (RBNode Red xl xk xr))
               path))"

declare rebalance.simps [simp del]

fun blacken :: "rb_tree \<Rightarrow> rb_tree" where
  "blacken RBLeaf = RBLeaf"
| "blacken (RBNode c l p r) = RBNode Black l p r"

text \<open>
  \<^verbatim>\<open>insert\<close>: the point is linked in as a red leaf at the end of the walk, and the tree
  rebalanced, unless the element of the last comparison is not below it; then the set
  stays as it is.
\<close>

definition set_insert :: "point \<Rightarrow> rb_tree \<Rightarrow> rb_tree" where
  "set_insert k t =
     (case predecessor (descend k t []) of
        None \<Rightarrow> blacken (rebalance RBLeaf k RBLeaf (descend k t []))
      | Some j \<Rightarrow>
          (if plt j k then blacken (rebalance RBLeaf k RBLeaf (descend k t [])) else t))"

text \<open>The elements in iteration order, from \<^verbatim>\<open>begin()\<close> to \<^verbatim>\<open>end()\<close>.\<close>

fun set_elems :: "rb_tree \<Rightarrow> point list" where
  "set_elems RBLeaf = []"
| "set_elems (RBNode c l p r) = set_elems l @ p # set_elems r"

text \<open>
  \<^verbatim>\<open>save_tree\<close> receives the set of points only and makes every node afresh: a chain of
  \<open>Vertical\<close> nodes of size one, linked through \<open>left\<close>, in the order of the set. It
  dereferences \<^verbatim>\<open>begin()\<close>, so it has no equation for the empty set; both callers return
  before it when the set is empty.
\<close>

fun save_tree :: "point list \<Rightarrow> node" where
  "save_tree [p] = Node p Vertical Null Null 1"
| "save_tree (p # q # qs) = Node p Vertical (save_tree (q # qs)) Null 1"

text \<open>
  \<^verbatim>\<open>save_tree\<close> once more, with the nodes at their addresses. The heap is the list of
  the nodes that exist, a node's address is its position, and \<^verbatim>\<open>std::make_shared\<close>
  appends a node. \<^verbatim>\<open>save_tree\<close> makes the first node, and for every further point makes
  a node and stores its address in \<open>left\<close> of the node made before. It returns the address
  of the first node. \<open>load\<close> reads the nodes reachable from an address back as a tree.
\<close>

record cell =
  c_point :: point
  c_orientation :: orientation
  c_left :: "nat option"
  c_right :: "nat option"
  c_size :: nat

definition make_shared :: "cell list \<Rightarrow> point \<Rightarrow> orientation \<Rightarrow> nat \<times> cell list" where
  "make_shared heap p ori =
     (length heap,
      heap @ [\<lparr>c_point = p, c_orientation = ori, c_left = None, c_right = None, c_size = 1\<rparr>])"

fun save_tree_loop :: "cell list \<Rightarrow> nat \<Rightarrow> point list \<Rightarrow> cell list" where
  "save_tree_loop heap cur [] = heap"
| "save_tree_loop heap cur (p # ps) =
     save_tree_loop
       ((snd (make_shared heap p Vertical))
          [cur := (snd (make_shared heap p Vertical) ! cur)
                    \<lparr>c_left := Some (fst (make_shared heap p Vertical))\<rparr>])
       (fst (make_shared heap p Vertical)) ps"

fun save_tree_heap :: "cell list \<Rightarrow> point list \<Rightarrow> nat \<times> cell list" where
  "save_tree_heap heap (p # ps) =
     (fst (make_shared heap p Vertical),
      save_tree_loop (snd (make_shared heap p Vertical)) (fst (make_shared heap p Vertical)) ps)"

fun load :: "cell list \<Rightarrow> nat \<Rightarrow> nat option \<Rightarrow> node" where
  "load heap 0 ptr = Null"
| "load heap (Suc fuel) None = Null"
| "load heap (Suc fuel) (Some a) =
     (if a < length heap then
        Node (c_point (heap ! a)) (c_orientation (heap ! a))
          (load heap fuel (c_left (heap ! a))) (load heap fuel (c_right (heap ! a)))
          (c_size (heap ! a))
      else Null)"

text \<open>
  A chain is detached from the nodes that existed before it was made when its first node
  is a new one, the nodes that existed are all as they were, no pointer of a new node
  leads to a node that existed, and the new nodes, read from the first, are the chain.
\<close>

definition points_into :: "nat \<Rightarrow> cell \<Rightarrow> bool" where
  "points_into base c =
     ((case c_left c of None \<Rightarrow> True | Some a \<Rightarrow> base \<le> a) \<and>
      (case c_right c of None \<Rightarrow> True | Some a \<Rightarrow> base \<le> a))"

definition detached_chain :: "cell list \<Rightarrow> point list \<Rightarrow> node \<Rightarrow> bool" where
  "detached_chain heap ps chain =
     (length heap \<le> fst (save_tree_heap heap ps) \<and>
      take (length heap) (snd (save_tree_heap heap ps)) = heap \<and>
      list_all (points_into (length heap)) (drop (length heap) (snd (save_tree_heap heap ps))) \<and>
      load (snd (save_tree_heap heap ps)) (length (snd (save_tree_heap heap ps)))
        (Some (fst (save_tree_heap heap ps))) = chain)"

text \<open>
  The iterator: the current node and the queue of nodes still to visit. A
  default-constructed iterator has a null current node; \<^verbatim>\<open>operator==\<close> compares the
  current nodes, so an iterator equals the default-constructed one exactly when its current
  node is null.
\<close>

record iterator =
  queue :: "node list"
  now :: node

definition iterator_at :: "node \<Rightarrow> iterator" where
  "iterator_at n = \<lparr>queue = [], now = n\<rparr>"

definition end_iterator :: iterator where
  "end_iterator = \<lparr>queue = [], now = Null\<rparr>"

definition at_end :: "iterator \<Rightarrow> bool" where
  "at_end it = (now it = Null)"

definition push_present :: "node \<Rightarrow> node list \<Rightarrow> node list" where
  "push_present n q = (if n = Null then q else q @ [n])"

text \<open>\<^verbatim>\<open>operator++\<close> and \<^verbatim>\<open>operator*\<close>.\<close>

definition increment :: "iterator \<Rightarrow> iterator" where
  "increment it =
     (case now it of
        Null \<Rightarrow> it
      | Node p ori l r sz \<Rightarrow>
          (case push_present r (push_present l (queue it)) of
             [] \<Rightarrow> \<lparr>queue = [], now = Null\<rparr>
           | n # q \<Rightarrow> \<lparr>queue = q, now = n\<rparr>))"

definition deref :: "iterator \<Rightarrow> point" where
  "deref it = npoint (now it)"

text \<open>
  What a caller reads from a pair of iterators whose second is the end sentinel: the
  loop \<^verbatim>\<open>for (; first != second; ++first) out.push_back(*first)\<close>. The nodes still to be
  visited shrink with every step.
\<close>

fun pending :: "iterator \<Rightarrow> nat" where
  "pending it = count_nodes (now it) + sum_list (map count_nodes (queue it))"

lemma pending_increment: "now it \<noteq> Null \<Longrightarrow> pending (increment it) < pending it"
  by (cases "now it"; cases "nleft (now it)"; cases "nright (now it)"; cases "queue it")
     (auto simp: increment_def push_present_def)

function enumerate_from :: "iterator \<Rightarrow> point list" where
  "enumerate_from it =
     (if at_end it then [] else deref it # enumerate_from (increment it))"
  by pat_completeness auto
termination
  by (relation "measure pending") (auto simp: at_end_def pending_increment simp del: pending.simps)

declare enumerate_from.simps [simp del]

subsection \<open>Range search\<close>

definition split :: "rect \<Rightarrow> point \<Rightarrow> orientation \<Rightarrow> rect \<times> rect" where
  "split rect_now node_point node_orientation =
     (if node_orientation = Vertical then
        (Rect (left_bottom rect_now) (Point (px node_point) (ymax rect_now)),
         Rect (Point (px node_point) (ymin rect_now)) (right_top rect_now))
      else
        (Rect (left_bottom rect_now) (Point (xmax rect_now) (py node_point)),
         Rect (Point (xmin rect_now) (py node_point)) (right_top rect_now)))"

definition whole_plane :: rect where
  "whole_plane = Rect (Point (dneg INFd) (dneg INFd)) (Point INFd INFd)"

fun range_impl :: "rect \<Rightarrow> node \<Rightarrow> rb_tree \<Rightarrow> rect \<Rightarrow> rb_tree" where
  "range_impl key Null ans_set rect_now = ans_set"
| "range_impl key (Node p ori l r sz) ans_set rect_now =
     (if intersects key rect_now then
        range_impl key r
          (range_impl key l
             (if rcontains key p then set_insert p ans_set else ans_set)
             (fst (split rect_now p ori)))
          (snd (split rect_now p ori))
      else ans_set)"

text \<open>
  The elements of the set that \<^verbatim>\<open>range\<close> hands to \<^verbatim>\<open>save_tree\<close>, and the points that
  \<^verbatim>\<open>range_impl\<close> hands to \<^verbatim>\<open>insert\<close>, in the order of the calls: the points of the
  nodes it reaches that lie inside the query rectangle.
\<close>

definition range_set :: "node \<Rightarrow> rect \<Rightarrow> point list" where
  "range_set rt key = set_elems (range_impl key rt RBLeaf whole_plane)"

fun range_collected :: "rect \<Rightarrow> node \<Rightarrow> rect \<Rightarrow> point list" where
  "range_collected key Null rect_now = []"
| "range_collected key (Node p ori l r sz) rect_now =
     (if intersects key rect_now then
        (if rcontains key p then [p] else [])
        @ range_collected key l (fst (split rect_now p ori))
        @ range_collected key r (snd (split rect_now p ori))
      else [])"

definition range :: "node \<Rightarrow> rect \<Rightarrow> iterator \<times> iterator" where
  "range rt key =
     (if range_set rt key = [] then (end_iterator, end_iterator)
      else (iterator_at (save_tree (range_set rt key)), end_iterator))"

section \<open>The pool (mpool.h)\<close>

text \<open>
  A pool is its record size and its occupancy bitmap; the bytes of \<^verbatim>\<open>m_storage\<close> carry no
  behaviour of their own. Indices and counts are \<^verbatim>\<open>size_t\<close>: every one of them is bounded
  by the length of the bitmap, so they are natural numbers, and \<^verbatim>\<open>npos\<close> is \<open>None\<close>.
  A pointer into the arena is its byte offset from \<^verbatim>\<open>&m_storage[0]\<close>, an integer so that
  a pointer below the arena can be written.
\<close>

record pool =
  m_obj_size :: nat
  m_used_map :: "bool list"

definition Pool :: "nat \<Rightarrow> nat \<Rightarrow> pool" where
  "Pool obj_size obj_count =
     \<lparr>m_obj_size = obj_size, m_used_map = replicate obj_count False\<rparr>"

datatype error = bad_alloc | empty_map_dereferenced

text \<open>
  The inner loop of \<^verbatim>\<open>find_empty_place\<close>: from \<open>j\<close>, with \<open>k\<close> slots already seen
  free, walk on while fewer than \<open>n\<close> were seen and the bitmap has not ended, stopping at
  a used slot. The result is the final \<open>j\<close>.
\<close>

function scan_run :: "bool list \<Rightarrow> nat \<Rightarrow> nat \<Rightarrow> nat \<Rightarrow> nat" where
  "scan_run used n k j =
     (if k < n \<and> j < length used then
        (if used ! j then j else scan_run used n (Suc k) (Suc j))
      else j)"
  by pat_completeness auto
termination
  by (relation "measure (\<lambda>(used, n, k, j). n - k)") auto

declare scan_run.simps [simp del]

lemma scan_run_ge: "j \<le> scan_run used n k j"
proof (induction used n k j rule: scan_run.induct)
  case (1 used n k j)
  show ?case
  proof (cases "k < n \<and> j < length used \<and> \<not> used ! j")
    case True
    with 1 have "Suc j \<le> scan_run used n (Suc k) (Suc j)" by simp
    with True show ?thesis by (subst scan_run.simps) simp
  next
    case False
    then show ?thesis by (subst scan_run.simps) auto
  qed
qed

text \<open>The outer loop, from index \<open>i\<close>.\<close>

function find_from :: "bool list \<Rightarrow> nat \<Rightarrow> nat \<Rightarrow> nat option" where
  "find_from used n i =
     (if i < length used then
        (if used ! i then find_from used n (Suc i)
         else if n = scan_run used n 0 i - i then Some i
         else find_from used n (Suc (scan_run used n 0 i)))
      else None)"
  by pat_completeness auto
termination
proof (relation "measure (\<lambda>(used, n, i). length used - i)")
  fix used :: "bool list" and n i :: nat
  assume "i < length used"
  moreover have "i \<le> scan_run used n 0 i" by (rule scan_run_ge)
  ultimately show "((used, n, Suc (scan_run used n 0 i)), (used, n, i))
      \<in> measure (\<lambda>(used, n, i). length used - i)"
    by simp
qed auto

declare find_from.simps [simp del]

definition find_empty_place :: "pool \<Rightarrow> nat \<Rightarrow> nat option" where
  "find_empty_place p n =
     (if n > length (m_used_map p) then None else find_from (m_used_map p) n 0)"

text \<open>The marking loops of \<^verbatim>\<open>allocate\<close> and \<^verbatim>\<open>deallocate\<close>: \<open>c\<close> slots from \<open>i\<close>.\<close>

fun fill_range :: "bool list \<Rightarrow> nat \<Rightarrow> nat \<Rightarrow> bool \<Rightarrow> bool list" where
  "fill_range used i 0 v = used"
| "fill_range used i (Suc c) v = fill_range (used[i := v]) (Suc i) c v"

definition allocate :: "pool \<Rightarrow> nat \<Rightarrow> error + (int \<times> pool)" where
  "allocate p n =
     (case find_empty_place p n of
        Some pos \<Rightarrow>
          Inr (int (pos * m_obj_size p),
               p\<lparr>m_used_map := fill_range (m_used_map p) pos n True\<rparr>)
      | None \<Rightarrow> Inl bad_alloc)"

text \<open>
  \<^verbatim>\<open>deallocate\<close> divides by the record size, which is a \<^verbatim>\<open>sizeof\<close> and never zero.
\<close>

definition deallocate :: "pool \<Rightarrow> int \<Rightarrow> nat \<Rightarrow> pool" where
  "deallocate p ptr n =
     (if 0 \<le> ptr then
        (if nat ptr div m_obj_size p < length (m_used_map p) then
           p\<lparr>m_used_map :=
               fill_range (m_used_map p) (nat ptr div m_obj_size p)
                 (min n (length (m_used_map p) - nat ptr div m_obj_size p)) False\<rparr>
         else p)
      else p)"








subsection \<open>Nearest neighbours\<close>

text \<open>
  \<^verbatim>\<open>point_map\<close> is a \<^verbatim>\<open>std::map\<close> from distance to point whose tree nodes come from the
  pool: the list of its entries in key order, each with the pointer of its node. The keys
  are compared with the built-in order of doubles.

  \<^verbatim>\<open>emplace\<close> allocates and fills a node first, then looks for the key; when an
  equivalent key is present the map stays as it is and the new node goes back to the pool.
\<close>

type_synonym point_map = "(dbl \<times> point \<times> int) list"

fun map_insert :: "dbl \<times> point \<times> int \<Rightarrow> point_map \<Rightarrow> point_map option" where
  "map_insert e [] = Some [e]"
| "map_insert e (f # fs) =
     (if dlt (fst f) (fst e) then
        (case map_insert e fs of None \<Rightarrow> None | Some fs' \<Rightarrow> Some (f # fs'))
      else if dlt (fst e) (fst f) then Some (e # f # fs)
      else None)"

definition emplace :: "point_map \<times> pool \<Rightarrow> dbl \<Rightarrow> point \<Rightarrow> error + (point_map \<times> pool)" where
  "emplace s d p =
     (case allocate (snd s) 1 of
        Inl e \<Rightarrow> Inl e
      | Inr (ptr, pl) \<Rightarrow>
          (case map_insert (d, p, ptr) (fst s) of
             Some m \<Rightarrow> Inr (m, pl)
           | None \<Rightarrow> Inr (fst s, deallocate pl ptr 1)))"

text \<open>\<^verbatim>\<open>ans_set.erase(--ans_set.end())\<close>, called on a map that is not empty.\<close>

definition erase_last :: "point_map \<times> pool \<Rightarrow> point_map \<times> pool" where
  "erase_last s = (butlast (fst s), deallocate (snd s) (snd (snd (last (fst s)))) 1)"

definition evict :: "nat \<Rightarrow> point_map \<times> pool \<Rightarrow> point_map \<times> pool" where
  "evict k s = (if length (fst s) > k then erase_last s else s)"

text \<open>
  \<^verbatim>\<open>nearest_impl\<close>. The map and the pool are threaded through the two recursive calls;
  a \<^verbatim>\<open>bad_alloc\<close> of the pool ends the search. Reading the last key of an empty map has
  no defined behaviour; it is an error value here.
\<close>

fun nearest_impl ::
  "(real \<Rightarrow> real \<Rightarrow> dbl) \<Rightarrow> point \<Rightarrow> nat \<Rightarrow> node \<Rightarrow> point_map \<times> pool \<Rightarrow> rect
     \<Rightarrow> error + (point_map \<times> pool)" where
  "nearest_impl std_hypot key k Null s rect_now = Inr s"
| "nearest_impl std_hypot key k (Node p ori l r sz) s rect_now =
     (case emplace s (distance std_hypot key p) p of
        Inl e \<Rightarrow> Inl e
      | Inr s1 \<Rightarrow>
          (if fst (evict k s1) = [] then Inl empty_map_dereferenced
           else if dgt (rdistance std_hypot rect_now key) (fst (last (fst (evict k s1)))) then
             Inr (evict k s1)
           else
             (case nearest_impl std_hypot key k l (evict k s1) (fst (split rect_now p ori)) of
                Inl e \<Rightarrow> Inl e
              | Inr s2 \<Rightarrow>
                  nearest_impl std_hypot key k r s2 (snd (split rect_now p ori)))))"

text \<open>
  \<^verbatim>\<open>sizeof(map_node)\<close>: 32 bytes of tree links and 24 of the pair on the usual 64-bit
  platforms. Only that it is positive matters.
\<close>

definition sizeof_map_node :: nat where
  "sizeof_map_node = 56"

text \<open>
  The pools that \<^verbatim>\<open>create_pool\<close> made and \<^verbatim>\<open>destroy_pool\<close> has not yet destroyed are
  counted: \<open>live\<close> is their number before the call, and the second component of the result
  is their number when the call returns or throws.
\<close>

definition create_pool :: "nat \<Rightarrow> nat \<Rightarrow> pool \<times> nat" where
  "create_pool live obj_count = (Pool sizeof_map_node obj_count, Suc live)"

definition destroy_pool :: "nat \<Rightarrow> nat" where
  "destroy_pool live = live - 1"

definition points_in_order :: "point_map \<Rightarrow> point list" where
  "points_in_order m = set_elems (foldl (\<lambda>s e. set_insert (fst (snd e)) s) RBLeaf m)"

text \<open>
  \<^verbatim>\<open>nearest(key, k)\<close>. The capacity \<^verbatim>\<open>k + 1\<close> is computed in \<^verbatim>\<open>size_t\<close>, of 64 bits.
\<close>

definition nearest ::
  "(real \<Rightarrow> real \<Rightarrow> dbl) \<Rightarrow> nat \<Rightarrow> node \<Rightarrow> point \<Rightarrow> nat
     \<Rightarrow> (error + iterator \<times> iterator) \<times> nat" where
  "nearest std_hypot live rt key k =
     (if k = 0 then (Inr (end_iterator, end_iterator), live)
      else
        (case nearest_impl std_hypot key k rt
                ([], fst (create_pool live ((k + 1) mod 2 ^ 64))) whole_plane of
           Inl e \<Rightarrow> (Inl e, snd (create_pool live ((k + 1) mod 2 ^ 64)))
         | Inr s \<Rightarrow>
             (if fst s = [] then
                (Inr (end_iterator, end_iterator),
                 snd (create_pool live ((k + 1) mod 2 ^ 64)))
              else
                (Inr (iterator_at (save_tree (points_in_order (fst s))), end_iterator),
                 destroy_pool (snd (create_pool live ((k + 1) mod 2 ^ 64)))))))"

text \<open>The set of points that \<^verbatim>\<open>nearest\<close> hands to \<^verbatim>\<open>save_tree\<close>, when the search returns.\<close>

definition nearest_set :: "(real \<Rightarrow> real \<Rightarrow> dbl) \<Rightarrow> node \<Rightarrow> point \<Rightarrow> nat \<Rightarrow> point list" where
  "nearest_set std_hypot rt key k =
     (case nearest_impl std_hypot key k rt
             ([], Pool sizeof_map_node ((k + 1) mod 2 ^ 64)) whole_plane of
        Inl e \<Rightarrow> []
      | Inr s \<Rightarrow> points_in_order (fst s))"

text \<open>A sequence of \<^verbatim>\<open>put\<close> calls on one index.\<close>

fun put_all :: "node \<Rightarrow> point list \<Rightarrow> node" where
  "put_all rt [] = rt"
| "put_all rt (p # ps) = put_all (put rt p) ps"

section \<open>Evaluation rules\<close>

lemmas dbl_defs = double_equal_def EPS_def dge_def dgt_def dmin_def INFd_def dneg_def

lemmas geo_defs = peq_def plt_def distance_def xmin_def ymin_def xmax_def ymax_def
  rcontains_def intersects_impl_def intersects_def rdistance_def split_def whole_plane_def

lemmas tree_defs = goes_right_def put_def size_of_def

lemmas set_defs = set_insert_def rebalance.simps

lemmas iter_defs = iterator_at_def end_iterator_def at_end_def push_present_def
  increment_def deref_def

lemmas pool_defs = Pool_def find_empty_place_def allocate_def deallocate_def
  find_from.simps scan_run.simps

section \<open>Where the code departs from the specification\<close>

text \<open>
  C1. The claim: \<^verbatim>\<open>range(R)\<close> returns exactly the stored points inside \<open>R\<close>, whatever the
  insertion order. \<^verbatim>\<open>Rect::intersects\<close> only tests whether a corner of one rectangle
  lies in the other, so the pruning of \<^verbatim>\<open>range_impl\<close> abandons a subtree whose rectangle
  crosses the query without a corner inside it. After the puts \<open>(0,0)\<close>, \<open>(10,0)\<close>,
  \<open>(10,1)\<close>, \<open>(5,1.5)\<close> the query \<open>[-5,15] \<times> [1,2]\<close> returns \<open>(10,1)\<close> alone, although
  \<open>(5,1.5)\<close> is stored and inside; with \<open>(5,1.5)\<close> put first the same query returns
  both points.
\<close>

theorem range_misses_stored_point:
  "enumerate_from (fst (range
      (put_all Null [Point (Fin 0) (Fin 0), Point (Fin 10) (Fin 0),
                     Point (Fin 10) (Fin 1), Point (Fin 5) (Fin (3 / 2))])
      (Rect (Point (Fin (- 5)) (Fin 1)) (Point (Fin 15) (Fin 2)))))
     = [Point (Fin 10) (Fin 1)]
   \<and> contains
      (put_all Null [Point (Fin 0) (Fin 0), Point (Fin 10) (Fin 0),
                     Point (Fin 10) (Fin 1), Point (Fin 5) (Fin (3 / 2))])
      (Point (Fin 5) (Fin (3 / 2)))
   \<and> rcontains (Rect (Point (Fin (- 5)) (Fin 1)) (Point (Fin 15) (Fin 2)))
      (Point (Fin 5) (Fin (3 / 2)))
   \<and> enumerate_from (fst (range
      (put_all Null [Point (Fin 5) (Fin (3 / 2)), Point (Fin 0) (Fin 0),
                     Point (Fin 10) (Fin 0), Point (Fin 10) (Fin 1)])
      (Rect (Point (Fin (- 5)) (Fin 1)) (Point (Fin 15) (Fin 2)))))
     = [Point (Fin 5) (Fin (3 / 2)), Point (Fin 10) (Fin 1)]"
proof -
  have first: "range_set
      (put_all Null [Point (Fin 0) (Fin 0), Point (Fin 10) (Fin 0),
                     Point (Fin 10) (Fin 1), Point (Fin 5) (Fin (3 / 2))])
      (Rect (Point (Fin (- 5)) (Fin 1)) (Point (Fin 15) (Fin 2)))
     = [Point (Fin 10) (Fin 1)]"
    by (simp add: range_set_def dbl_defs geo_defs tree_defs set_defs)
  have second: "range_set
      (put_all Null [Point (Fin 5) (Fin (3 / 2)), Point (Fin 0) (Fin 0),
                     Point (Fin 10) (Fin 0), Point (Fin 10) (Fin 1)])
      (Rect (Point (Fin (- 5)) (Fin 1)) (Point (Fin 15) (Fin 2)))
     = [Point (Fin 5) (Fin (3 / 2)), Point (Fin 10) (Fin 1)]"
    by (simp add: range_set_def dbl_defs geo_defs tree_defs set_defs)
  have stored: "contains
      (put_all Null [Point (Fin 0) (Fin 0), Point (Fin 10) (Fin 0),
                     Point (Fin 10) (Fin 1), Point (Fin 5) (Fin (3 / 2))])
      (Point (Fin 5) (Fin (3 / 2)))"
    by (simp add: dbl_defs geo_defs tree_defs)
  have inside: "rcontains (Rect (Point (Fin (- 5)) (Fin 1)) (Point (Fin 15) (Fin 2)))
      (Point (Fin 5) (Fin (3 / 2)))"
    by (simp add: dbl_defs geo_defs)
  show ?thesis
    unfolding range_def first second
    using stored inside by (simp add: iter_defs enumerate_from.simps)
qed

text \<open>
  C2. The claim: \<^verbatim>\<open>nearest(key, k)\<close> returns \<open>min(k, size)\<close> points. The candidates are
  kept in a map keyed by the distance, and \<^verbatim>\<open>emplace\<close> drops a point whose distance is
  already a key. With the two points \<open>(1,0)\<close> and \<open>(-1,0)\<close>, both at distance 1 from the
  key \<open>(0,0)\<close>, \<^verbatim>\<open>nearest(key, 2)\<close> returns the single point \<open>(1,0)\<close>.
\<close>

theorem nearest_drops_equidistant_point:
  "fst (nearest std_hypot live
      (put_all Null [Point (Fin 1) (Fin 0), Point (Fin (- 1)) (Fin 0)])
      (Point (Fin 0) (Fin 0)) 2)
     = Inr (iterator_at (Node (Point (Fin 1) (Fin 0)) Vertical Null Null 1), end_iterator)
   \<and> enumerate_from (iterator_at (Node (Point (Fin 1) (Fin 0)) Vertical Null Null 1))
     = [Point (Fin 1) (Fin 0)]
   \<and> size_of (put_all Null [Point (Fin 1) (Fin 0), Point (Fin (- 1)) (Fin 0)]) = 2
   \<and> distance std_hypot (Point (Fin 0) (Fin 0)) (Point (Fin 1) (Fin 0)) = Fin 1
   \<and> distance std_hypot (Point (Fin 0) (Fin 0)) (Point (Fin (- 1)) (Fin 0)) = Fin 1"
  by (simp add: nearest_def create_pool_def destroy_pool_def sizeof_map_node_def
      emplace_def evict_def erase_last_def points_in_order_def
      dbl_defs geo_defs tree_defs pool_defs iter_defs set_defs enumerate_from.simps)

text \<open>
  C3. The claim: after bulk construction from \<open>S\<close>, \<^verbatim>\<open>size()\<close> is the number of elements
  of \<open>S\<close> without its duplicates. \<^verbatim>\<open>put\<close> increments the cached size of every node it
  passes before it finds the duplicate. For \<open>S = (0,0), (0,0), (1,1), (2,2), (3,3)\<close> the
  index holds four nodes and reports the size 5.
\<close>

theorem bulk_size_counts_duplicate:
  "size_of (balancing Vertical
      [Point (Fin 0) (Fin 0), Point (Fin 0) (Fin 0), Point (Fin 1) (Fin 1),
       Point (Fin 2) (Fin 2), Point (Fin 3) (Fin 3)] Null) = 5
   \<and> count_nodes (balancing Vertical
      [Point (Fin 0) (Fin 0), Point (Fin 0) (Fin 0), Point (Fin 1) (Fin 1),
       Point (Fin 2) (Fin 2), Point (Fin 3) (Fin 3)] Null) = 4
   \<and> length (deduplicate_within_epsilon []
      [Point (Fin 0) (Fin 0), Point (Fin 0) (Fin 0), Point (Fin 1) (Fin 1),
       Point (Fin 2) (Fin 2), Point (Fin 3) (Fin 3)]) = 4"
  by (simp add: balancing.simps axis_less_def dbl_defs geo_defs tree_defs)

text \<open>
  C4. The claim: the cached size of every node is one plus the cached sizes of its
  children after any sequence of puts, also of points already present. Putting \<open>(0,0)\<close> a
  second time under the root \<open>(1,1)\<close> raises the root's size to 3 and attaches nothing.
\<close>

theorem put_duplicate_breaks_size_invariant:
  "size_invariant (put_all Null [Point (Fin 1) (Fin 1), Point (Fin 0) (Fin 0)])
   \<and> \<not> size_invariant
        (put_all Null [Point (Fin 1) (Fin 1), Point (Fin 0) (Fin 0), Point (Fin 0) (Fin 0)])
   \<and> put_all Null [Point (Fin 1) (Fin 1), Point (Fin 0) (Fin 0), Point (Fin 0) (Fin 0)]
     = Node (Point (Fin 1) (Fin 1)) Vertical
         (Node (Point (Fin 0) (Fin 0)) Horizontal Null Null 1) Null 3"
  by (simp add: dbl_defs geo_defs tree_defs)

text \<open>
  C5. The claim: the pool made at the entry of \<^verbatim>\<open>nearest(key, k)\<close>, \<open>k > 0\<close>, is
  destroyed on every exit path. On an empty index the search leaves the map empty and the
  call returns inside the block, before \<^verbatim>\<open>destroy_pool\<close>: one more pool is live after the
  call than before it, for every key and every positive \<open>k\<close>.
\<close>

theorem nearest_empty_index_leaks_pool:
  "nearest std_hypot live Null key (Suc k) = (Inr (end_iterator, end_iterator), Suc live)"
  by (simp add: nearest_def create_pool_def)

text \<open>
  C7. The claim: an unpaired trailing coordinate is dropped. \<^verbatim>\<open>read\<close> does not test the
  second extraction: for the tokens \<open>1 2 3\<close> it appends \<open>(3, 2)\<close>, the trailing token
  with the \<open>y\<close> of the pair before, and the index holds that point.
\<close>

theorem read_keeps_unpaired_coordinate:
  "read y0 [Fin 1, Fin 2, Fin 3] = [Point (Fin 1) (Fin 2), Point (Fin 3) (Fin 2)]
   \<and> points_of (PointSet y0 (Some [Fin 1, Fin 2, Fin 3]))
     = [Point (Fin 3) (Fin 2), Point (Fin 1) (Fin 2)]
   \<and> contains (PointSet y0 (Some [Fin 1, Fin 2, Fin 3])) (Point (Fin 3) (Fin 2))
   \<and> size_of (PointSet y0 (Some [Fin 1, Fin 2, Fin 3])) = 2"
  by (simp add: PointSet_def read_def balancing.simps axis_less_def
      dbl_defs geo_defs tree_defs)

section \<open>The pool serves every client of single records\<close>








definition slot_ptr :: "pool \<Rightarrow> nat \<Rightarrow> int" where
  "slot_ptr p pos = int (pos * m_obj_size p)"


lemma slot_ptr_update [simp]: "slot_ptr (p\<lparr>m_used_map := u\<rparr>) pos = slot_ptr p pos"
  by (simp add: slot_ptr_def)

















section \<open>Membership after insertion\<close>

lemma double_equal_Fin: "double_equal (Fin a) (Fin b) = (\<bar>a - b\<bar> < 1 / 2 ^ 52)"
  by (simp add: double_equal_def EPS_def)

lemma double_equal_sym: "double_equal x y = double_equal y x"
  by (cases x; cases y) (auto simp: double_equal_def EPS_def abs_minus_commute)

lemma peq_sym: "peq a b = peq b a"
  using double_equal_sym by (auto simp: peq_def)

lemma is_finE: "is_fin x \<Longrightarrow> (\<And>a. x = Fin a \<Longrightarrow> P) \<Longrightarrow> P"
  by (cases x) auto

lemma finite_pointE:
  "finite_point p \<Longrightarrow> (\<And>a b. p = Point (Fin a) (Fin b) \<Longrightarrow> P) \<Longrightarrow> P"
  by (cases p) (auto simp: finite_point_def elim!: is_finE)

lemma peq_refl: "finite_point p \<Longrightarrow> peq p p"
  by (erule finite_pointE) (simp add: peq_def double_equal_Fin)

lemma contains_put_loop: "finite_point key \<Longrightarrow> contains (put_loop ori key t) key"
  by (induction t arbitrary: ori) (auto simp: peq_refl peq_sym)



lemma set_points_of_put_loop: "set (points_of (put_loop ori p t)) \<subseteq> insert p (set (points_of t))"
  by (induction t arbitrary: ori) auto












section \<open>The comparison of points\<close>

lemma trichotomy_reals:
  fixes x y u v e :: real
  assumes "0 < e"
  shows "(if \<bar>x - u\<bar> < e then (if \<bar>y - v\<bar> < e then False else y < v) else x < u)
      \<and> \<not> (\<bar>x - u\<bar> < e \<and> \<bar>y - v\<bar> < e)
      \<and> \<not> (if \<bar>u - x\<bar> < e then (if \<bar>v - y\<bar> < e then False else v < y) else u < x)
    \<or> \<not> (if \<bar>x - u\<bar> < e then (if \<bar>y - v\<bar> < e then False else y < v) else x < u)
      \<and> (\<bar>x - u\<bar> < e \<and> \<bar>y - v\<bar> < e)
      \<and> \<not> (if \<bar>u - x\<bar> < e then (if \<bar>v - y\<bar> < e then False else v < y) else u < x)
    \<or> \<not> (if \<bar>x - u\<bar> < e then (if \<bar>y - v\<bar> < e then False else y < v) else x < u)
      \<and> \<not> (\<bar>x - u\<bar> < e \<and> \<bar>y - v\<bar> < e)
      \<and> (if \<bar>u - x\<bar> < e then (if \<bar>v - y\<bar> < e then False else v < y) else u < x)"
  using assms by (auto simp: abs_minus_commute)

lemma point_trichotomy:
  assumes "finite_point a" and "finite_point b"
  shows "(plt a b \<and> \<not> peq a b \<and> \<not> plt b a)
     \<or> (\<not> plt a b \<and> peq a b \<and> \<not> plt b a)
     \<or> (\<not> plt a b \<and> \<not> peq a b \<and> plt b a)"
  using assms
  apply -
  apply (erule finite_pointE)+
  apply (simp only: plt_def peq_def double_equal_Fin point.sel dlt.simps)
  apply (rule trichotomy_reals)
  apply simp
  done

lemma separated_peq: "separated a b \<Longrightarrow> peq a b \<Longrightarrow> a = b"
  by (cases a; cases b) (auto simp: separated_def apart_def peq_def)

lemma separated_plt_trans:
  "finite_point a \<Longrightarrow> finite_point b \<Longrightarrow> finite_point c \<Longrightarrow>
   separated a b \<Longrightarrow> separated b c \<Longrightarrow> separated a c \<Longrightarrow>
   plt a b \<Longrightarrow> plt b c \<Longrightarrow> plt a c"
  apply (erule finite_pointE)+
  apply (simp add: plt_def separated_def apart_def double_equal_Fin split: if_splits)
  done

text \<open>
  C9, as stated: exactly one of \<open>a < b\<close>, \<open>a == b\<close>, \<open>b < a\<close> holds, and the equality
  and the order are transitive. The tolerance breaks both transitivities: \<open>0\<close>,
  \<open>2\<^sup>-\<^sup>5\<^sup>3\<close> and \<open>2\<^sup>-\<^sup>5\<^sup>2\<close> are equal step by step but not end to end, and
  \<open>(2\<^sup>-\<^sup>5\<^sup>2, 0) < (2\<^sup>-\<^sup>5\<^sup>3, 1) < (0, 2) < (2\<^sup>-\<^sup>5\<^sup>2, 0)\<close> is a cycle. A point with an infinite
  coordinate is neither below, nor equal to, nor above itself.
\<close>

theorem point_comparison_not_transitive:
  "peq (Point (Fin 0) (Fin 0)) (Point (Fin (1 / 2 ^ 53)) (Fin 0))
   \<and> peq (Point (Fin (1 / 2 ^ 53)) (Fin 0)) (Point (Fin (1 / 2 ^ 52)) (Fin 0))
   \<and> \<not> peq (Point (Fin 0) (Fin 0)) (Point (Fin (1 / 2 ^ 52)) (Fin 0))
   \<and> plt (Point (Fin (1 / 2 ^ 52)) (Fin 0)) (Point (Fin (1 / 2 ^ 53)) (Fin 1))
   \<and> plt (Point (Fin (1 / 2 ^ 53)) (Fin 1)) (Point (Fin 0) (Fin 2))
   \<and> \<not> plt (Point (Fin (1 / 2 ^ 52)) (Fin 0)) (Point (Fin 0) (Fin 2))
   \<and> plt (Point (Fin 0) (Fin 2)) (Point (Fin (1 / 2 ^ 52)) (Fin 0))
   \<and> \<not> plt (Point PInf (Fin 0)) (Point PInf (Fin 0))
   \<and> \<not> peq (Point PInf (Fin 0)) (Point PInf (Fin 0))"
  by (simp add: peq_def plt_def double_equal_Fin) (simp add: double_equal_def)

text \<open>
  C9, amended: for all points \<open>a\<close>, \<open>b\<close>, \<open>c\<close> with finite coordinates, exactly one of
  \<open>a < b\<close>, \<open>a == b\<close>, \<open>b < a\<close> holds, and the equality is reflexive and symmetric. The
  equality and the order are transitive on three points whose coordinates are, pair by
  pair, identical or at least the tolerance apart.
\<close>

theorem point_comparison_laws:
  assumes "finite_point a" and "finite_point b" and "finite_point c"
  shows "((plt a b \<and> \<not> peq a b \<and> \<not> plt b a)
       \<or> (\<not> plt a b \<and> peq a b \<and> \<not> plt b a)
       \<or> (\<not> plt a b \<and> \<not> peq a b \<and> plt b a))
     \<and> peq a a
     \<and> peq a b = peq b a
     \<and> (separated a b \<and> separated b c \<and> separated a c \<longrightarrow>
          (peq a b \<and> peq b c \<longrightarrow> peq a c) \<and> (plt a b \<and> plt b c \<longrightarrow> plt a c))"
proof (intro conjI impI)
  show "(plt a b \<and> \<not> peq a b \<and> \<not> plt b a)
       \<or> (\<not> plt a b \<and> peq a b \<and> \<not> plt b a)
       \<or> (\<not> plt a b \<and> \<not> peq a b \<and> plt b a)"
    using assms(1,2) by (rule point_trichotomy)
  show "peq a a" using assms(1) by (rule peq_refl)
  show "peq a b = peq b a" by (rule peq_sym)
next
  assume sep: "separated a b \<and> separated b c \<and> separated a c" and eq: "peq a b \<and> peq b c"
  then have "a = b" and "b = c" by (auto dest: separated_peq)
  with eq show "peq a c" by simp
next
  assume "separated a b \<and> separated b c \<and> separated a c" and "plt a b \<and> plt b c"
  with assms show "plt a c" by (blast intro: separated_plt_trans)
qed

theorem point_comparison_laws_witness:
  "finite_point (Point (Fin 0) (Fin 0))
   \<and> finite_point (Point (Fin 1) (Fin 0))
   \<and> finite_point (Point (Fin 1) (Fin 2))
   \<and> separated (Point (Fin 0) (Fin 0)) (Point (Fin 1) (Fin 0))
   \<and> separated (Point (Fin 1) (Fin 0)) (Point (Fin 1) (Fin 2))
   \<and> separated (Point (Fin 0) (Fin 0)) (Point (Fin 1) (Fin 2))
   \<and> plt (Point (Fin 0) (Fin 0)) (Point (Fin 1) (Fin 0))
   \<and> plt (Point (Fin 1) (Fin 0)) (Point (Fin 1) (Fin 2))
   \<and> plt (Point (Fin 0) (Fin 0)) (Point (Fin 1) (Fin 2))
   \<and> \<not> peq (Point (Fin 0) (Fin 0)) (Point (Fin 1) (Fin 0))
   \<and> \<not> plt (Point (Fin 1) (Fin 0)) (Point (Fin 0) (Fin 0))
   \<and> peq (Point (Fin 0) (Fin 0)) (Point (Fin 0) (Fin 0))"
  using point_comparison_laws
    [of "Point (Fin 0) (Fin 0)" "Point (Fin 1) (Fin 0)" "Point (Fin 1) (Fin 2)"]
  by (simp add: finite_point_def separated_def apart_def peq_def plt_def double_equal_Fin)

section \<open>The result set as the library keeps it\<close>

text \<open>
  The elements to the left and to the right of the position that a walk has reached, in
  iteration order.
\<close>

fun before :: "step list \<Rightarrow> point list" where
  "before [] = []"
| "before ((GoLeft, c, p, other) # path) = before path"
| "before ((GoRight, c, p, other) # path) = before path @ set_elems other @ [p]"

fun after :: "step list \<Rightarrow> point list" where
  "after [] = []"
| "after ((GoLeft, c, p, other) # path) = p # set_elems other @ after path"
| "after ((GoRight, c, p, other) # path) = after path"

lemma set_elems_rebuild:
  "set_elems (rebuild t path) = before path @ set_elems t @ after path"
  by (induction t path rule: rebuild.induct) simp_all

lemma set_elems_rebalance:
  "set_elems (rebalance xl xk xr path) =
     before path @ set_elems xl @ xk # set_elems xr @ after path"
proof (induction xl xk xr path rule: rebalance.induct)
  case (1 xl xk xr)
  show ?case by (simp add: rebalance.simps)
next
  case (2 xl xk xr s)
  show ?case by (simp add: rebalance.simps set_elems_rebuild)
next
  case (3 xl xk xr d pc pk sib gd gc gk unc path)
  show ?case
  proof (cases "pc = Black")
    case True
    then show ?thesis by (simp add: rebalance.simps set_elems_rebuild)
  next
    case False
    note red = this
    show ?thesis
    proof (cases "\<exists>ul uk ur. unc = RBNode Red ul uk ur")
      case True
      then obtain ul uk ur where unc: "unc = RBNode Red ul uk ur" by blast
      show ?thesis
      proof (cases gd)
        case GoLeft
        with red unc "3.IH"(1) [of Red ul uk ur] show ?thesis
          by (cases d) (simp_all add: rebalance.simps)
      next
        case GoRight
        with red unc "3.IH"(2) [of Red ul uk ur] show ?thesis
          by (cases d) (simp_all add: rebalance.simps)
      qed
    next
      case False
      then have "unc = RBLeaf \<or> (\<exists>ul uk ur. unc = RBNode Black ul uk ur)"
        by (cases unc) (auto intro: color.exhaust)
      with red show ?thesis
        by (cases d; cases gd) (auto simp: rebalance.simps set_elems_rebuild)
    qed
  qed
qed

lemma set_elems_blacken [simp]: "set_elems (blacken t) = set_elems t"
  by (cases t) simp_all

lemma elems_descend:
  "before (descend k t path) @ after (descend k t path) = before path @ set_elems t @ after path"
  by (induction t arbitrary: path) simp_all

lemma predecessor_before:
  "predecessor path = (if before path = [] then None else Some (last (before path)))"
  by (induction path rule: predecessor.induct) simp_all

fun steps_ok :: "point \<Rightarrow> step list \<Rightarrow> bool" where
  "steps_ok k [] = True"
| "steps_ok k ((GoLeft, c, p, other) # path) = (plt k p \<and> steps_ok k path)"
| "steps_ok k ((GoRight, c, p, other) # path) = (\<not> plt k p \<and> steps_ok k path)"

lemma steps_ok_descend: "steps_ok k path \<Longrightarrow> steps_ok k (descend k t path)"
  by (induction t arbitrary: path) simp_all

lemma steps_ok_after: "steps_ok k path \<Longrightarrow> after path = [] \<or> plt k (hd (after path))"
  by (induction path rule: after.induct) simp_all

lemma steps_ok_before: "steps_ok k path \<Longrightarrow> before path = [] \<or> \<not> plt k (last (before path))"
  by (induction path rule: before.induct) simp_all

text \<open>What an insertion does to the sequence of the elements.\<close>

lemma set_insert_cases:
  obtains (kept) xs ys where "set_elems t = xs @ ys" "set_elems (set_insert k t) = xs @ ys"
      "xs \<noteq> []" "\<not> plt (last xs) k" "\<not> plt k (last xs)"
    | (added) xs ys where "set_elems t = xs @ ys" "set_elems (set_insert k t) = xs @ k # ys"
      "xs = [] \<or> plt (last xs) k" "ys = [] \<or> plt k (hd ys)"
proof -
  let ?path = "descend k t []"
  have ok: "steps_ok k ?path" by (rule steps_ok_descend) simp
  have split: "set_elems t = before ?path @ after ?path"
    using elems_descend [of k t "[]"] by simp
  show thesis
  proof (cases "before ?path = [] \<or> plt (last (before ?path)) k")
    case True
    then have "set_insert k t = blacken (rebalance RBLeaf k RBLeaf ?path)"
      by (auto simp: set_insert_def predecessor_before)
    then have "set_elems (set_insert k t) = before ?path @ k # after ?path"
      by (simp add: set_elems_rebalance)
    with split True steps_ok_after [OF ok] show thesis by (intro added) auto
  next
    case False
    then have "set_insert k t = t"
      by (auto simp: set_insert_def predecessor_before)
    with split False steps_ok_before [OF ok] show thesis by (intro kept) auto
  qed
qed

lemma successively_insert_middle:
  assumes "successively P (xs @ ys)" and "xs = [] \<or> P (last xs) k" and "ys = [] \<or> P k (hd ys)"
  shows "successively P (xs @ k # ys)"
  using assms by (auto simp: successively_append_iff successively_Cons)

lemma successively_set_insert:
  "successively plt (set_elems t) \<Longrightarrow> successively plt (set_elems (set_insert k t))"
  by (rule set_insert_cases [of t k]) (auto intro: successively_insert_middle)

lemma set_set_insert_subset: "set (set_elems (set_insert k t)) \<subseteq> insert k (set (set_elems t))"
  by (rule set_insert_cases [of t k]) auto

lemma set_set_insert_mono: "set (set_elems t) \<subseteq> set (set_elems (set_insert k t))"
  by (rule set_insert_cases [of t k]) auto

lemma dlt_irrefl [simp]: "\<not> dlt x x"
  by (cases x) simp_all

lemma plt_irrefl [simp]: "\<not> plt k k"
  by (simp add: plt_def)

lemma set_insert_represented:
  "\<exists>q\<in>set (set_elems (set_insert k t)). \<not> plt q k \<and> \<not> plt k q"
proof (rule set_insert_cases [of t k])
  fix xs ys
  assume "set_elems (set_insert k t) = xs @ ys" "xs \<noteq> []" "\<not> plt (last xs) k" "\<not> plt k (last xs)"
  then show ?thesis by (intro bexI [of _ "last xs"]) auto
next
  fix xs ys
  assume "set_elems (set_insert k t) = xs @ k # ys"
  then show ?thesis by (intro bexI [of _ k]) auto
qed

lemma set_insert_not_empty: "set_elems (set_insert k t) \<noteq> []"
  using set_insert_represented [of k t] by auto

section \<open>The chain of a result\<close>

lemma save_tree_Cons:
  "save_tree (p # ps) = Node p Vertical (if ps = [] then Null else save_tree ps) Null 1"
  by (cases ps) simp_all

lemma increment_chain:
  "increment \<lparr>queue = [], now = save_tree (p # ps)\<rparr> =
     \<lparr>queue = [], now = (if ps = [] then Null else save_tree ps)\<rparr>"
  by (cases ps) (simp_all add: increment_def push_present_def)

lemma increment_end: "increment \<lparr>queue = [], now = Null\<rparr> = \<lparr>queue = [], now = Null\<rparr>"
  by (simp add: increment_def)

lemma funpow_increment_end:
  "(increment ^^ n) \<lparr>queue = [], now = Null\<rparr> = \<lparr>queue = [], now = Null\<rparr>"
  by (induction n) (simp_all add: increment_end)

lemma enumerate_chain:
  "enumerate_from \<lparr>queue = [], now = save_tree (p # ps)\<rparr> = p # ps"
proof (induction ps arbitrary: p)
  case Nil
  show ?case
    apply (subst enumerate_from.simps)
    apply (simp add: at_end_def deref_def increment_def push_present_def)
    apply (subst enumerate_from.simps)
    apply (simp add: at_end_def)
    done
next
  case (Cons q qs)
  have "enumerate_from \<lparr>queue = [], now = save_tree (p # q # qs)\<rparr> =
      p # enumerate_from \<lparr>queue = [], now = save_tree (q # qs)\<rparr>"
    by (subst enumerate_from.simps) (simp add: at_end_def deref_def increment_def push_present_def)
  with Cons show ?case by simp
qed

lemma steps_chain:
  "at_end ((increment ^^ n) \<lparr>queue = [], now = save_tree (p # ps)\<rparr>) = (Suc (length ps) \<le> n)"
proof (induction ps arbitrary: p n)
  case Nil
  show ?case
  proof (cases n)
    case 0
    then show ?thesis by (simp add: at_end_def)
  next
    case (Suc m)
    have "(increment ^^ n) \<lparr>queue = [], now = save_tree [p]\<rparr> =
        (increment ^^ m) \<lparr>queue = [], now = Null\<rparr>"
      unfolding Suc funpow_Suc_right o_apply increment_chain by simp
    with Suc show ?thesis by (simp add: funpow_increment_end at_end_def)
  qed
next
  case (Cons q qs)
  show ?case
  proof (cases n)
    case 0
    then show ?thesis by (simp add: at_end_def)
  next
    case (Suc m)
    have "(increment ^^ n) \<lparr>queue = [], now = save_tree (p # q # qs)\<rparr> =
        (increment ^^ m) \<lparr>queue = [], now = save_tree (q # qs)\<rparr>"
      unfolding Suc funpow_Suc_right o_apply increment_chain by simp
    with Cons [of m q] Suc show ?thesis by simp
  qed
qed

text \<open>The nodes that \<^verbatim>\<open>save_tree\<close> makes, as they lie in the heap.\<close>

fun chain_cells :: "nat \<Rightarrow> point list \<Rightarrow> cell list" where
  "chain_cells base [] = []"
| "chain_cells base [p] =
     [\<lparr>c_point = p, c_orientation = Vertical, c_left = None, c_right = None, c_size = 1\<rparr>]"
| "chain_cells base (p # q # qs) =
     \<lparr>c_point = p, c_orientation = Vertical, c_left = Some (Suc base), c_right = None, c_size = 1\<rparr>
     # chain_cells (Suc base) (q # qs)"

lemma save_tree_loop_cells:
  "save_tree_loop
     (heap @ [\<lparr>c_point = p, c_orientation = Vertical, c_left = None, c_right = None, c_size = 1\<rparr>])
     (length heap) ps
   = heap @ chain_cells (length heap) (p # ps)"
proof (induction ps arbitrary: heap p)
  case Nil
  show ?case by simp
next
  case (Cons q qs)
  let ?c = "\<lparr>c_point = p, c_orientation = Vertical, c_left = Some (Suc (length heap)),
      c_right = None, c_size = 1\<rparr>"
  have "save_tree_loop
      (heap @ [\<lparr>c_point = p, c_orientation = Vertical, c_left = None, c_right = None, c_size = 1\<rparr>])
      (length heap) (q # qs)
    = save_tree_loop
        ((heap @ [?c]) @ [\<lparr>c_point = q, c_orientation = Vertical, c_left = None, c_right = None, c_size = 1\<rparr>])
        (length (heap @ [?c])) qs"
    by (simp add: make_shared_def nth_append list_update_append)
  also have "\<dots> = (heap @ [?c]) @ chain_cells (length (heap @ [?c])) (q # qs)"
    by (rule Cons.IH)
  finally show ?case by simp
qed

lemma save_tree_heap_cells:
  "save_tree_heap heap (p # ps) = (length heap, heap @ chain_cells (length heap) (p # ps))"
  using save_tree_loop_cells [of heap p ps] by (simp add: make_shared_def)

lemma length_chain_cells [simp]: "length (chain_cells base ps) = length ps"
  by (induction base ps rule: chain_cells.induct) simp_all

lemma chain_cells_point_into:
  "base \<le> b \<Longrightarrow> list_all (points_into base) (chain_cells b ps)"
  by (induction b ps rule: chain_cells.induct) (simp_all add: points_into_def)

lemma load_chain:
  "load (heap @ chain_cells (length heap) (p # ps)) (Suc (length ps) + extra) (Some (length heap))
     = save_tree (p # ps)"
proof (induction ps arbitrary: heap p)
  case Nil
  show ?case by (cases extra) simp_all
next
  case (Cons q qs)
  let ?c = "\<lparr>c_point = p, c_orientation = Vertical, c_left = Some (Suc (length heap)),
      c_right = None, c_size = 1\<rparr>"
  have "load ((heap @ [?c]) @ chain_cells (length (heap @ [?c])) (q # qs))
      (Suc (length qs) + extra) (Some (length (heap @ [?c]))) = save_tree (q # qs)"
    by (rule Cons.IH)
  then show ?case by (cases "length qs + extra") (simp_all add: nth_append)
qed

lemma detached_chain_save_tree: "detached_chain heap (p # ps) (save_tree (p # ps))"
proof -
  have "load (heap @ chain_cells (length heap) (p # ps)) (Suc (length ps) + length heap)
      (Some (length heap)) = save_tree (p # ps)"
    by (rule load_chain)
  then show ?thesis
    unfolding detached_chain_def save_tree_heap_cells
    by (simp add: chain_cells_point_into add.commute del: chain_cells.simps load.simps)
qed

section \<open>What the iterators of a query enumerate\<close>

lemma range_impl_fold:
  "range_impl key t s rect_now =
     foldl (\<lambda>s p. set_insert p s) s (range_collected key t rect_now)"
  by (induction t arbitrary: s rect_now) simp_all

lemma successively_fold_insert:
  "successively plt (set_elems s) \<Longrightarrow>
     successively plt (set_elems (foldl (\<lambda>s p. set_insert p s) s ps))"
  by (induction ps arbitrary: s) (simp_all add: successively_set_insert)

lemma set_fold_insert_subset:
  "set (set_elems (foldl (\<lambda>s p. set_insert p s) s ps)) \<subseteq> set (set_elems s) \<union> set ps"
proof (induction ps arbitrary: s)
  case Nil
  show ?case by simp
next
  case (Cons p ps)
  from Cons [of "set_insert p s"] set_set_insert_subset [of p s] show ?case by auto
qed

lemma set_fold_insert_mono:
  "set (set_elems s) \<subseteq> set (set_elems (foldl (\<lambda>s p. set_insert p s) s ps))"
proof (induction ps arbitrary: s)
  case Nil
  show ?case by simp
next
  case (Cons p ps)
  from Cons [of "set_insert p s"] set_set_insert_mono [of s p] show ?case by auto
qed

lemma fold_insert_represented:
  "p \<in> set ps \<Longrightarrow>
     \<exists>q\<in>set (set_elems (foldl (\<lambda>s p. set_insert p s) s ps)). \<not> plt q p \<and> \<not> plt p q"
proof (induction ps arbitrary: s)
  case Nil
  then show ?case by simp
next
  case (Cons x ps)
  show ?case
  proof (cases "p = x")
    case True
    from set_insert_represented [of x s] obtain q where
      "q \<in> set (set_elems (set_insert x s))" "\<not> plt q x" "\<not> plt x q" by blast
    with True set_fold_insert_mono [of "set_insert x s" ps] show ?thesis by auto
  next
    case False
    with Cons.prems have "p \<in> set ps" by simp
    from Cons.IH [OF this, of "set_insert x s"] show ?thesis by simp
  qed
qed

lemma length_set_insert: "length (set_elems (set_insert k t)) \<le> Suc (length (set_elems t))"
  by (rule set_insert_cases [of t k]) auto

lemma length_fold_insert:
  "length (set_elems (foldl (\<lambda>s p. set_insert p s) s ps)) \<le> length (set_elems s) + length ps"
proof (induction ps arbitrary: s)
  case Nil
  show ?case by simp
next
  case (Cons p ps)
  from Cons [of "set_insert p s"] length_set_insert [of p s] show ?case by simp
qed

lemma range_collected_stored:
  "set (range_collected key t rect_now) \<subseteq> {p \<in> set (points_of t). rcontains key p}"
  by (induction t arbitrary: rect_now) auto

lemma points_in_order_fold:
  "points_in_order m = set_elems (foldl (\<lambda>s p. set_insert p s) RBLeaf (map (\<lambda>e. fst (snd e)) m))"
  by (simp add: points_in_order_def foldl_map)

lemma set_map_insert:
  "map_insert e m = Some m' \<Longrightarrow> set m' = insert e (set m) \<and> length m' = Suc (length m)"
proof (induction m arbitrary: m')
  case Nil
  then show ?case by auto
next
  case (Cons f fs)
  show ?case
  proof (cases "dlt (fst f) (fst e)")
    case True
    with Cons.prems obtain fs' where fs': "map_insert e fs = Some fs'" and m': "m' = f # fs'"
      by (cases "map_insert e fs") auto
    from Cons.IH [OF fs'] m' show ?thesis by auto
  next
    case False
    with Cons.prems have "m' = e # f # fs" by (simp split: if_splits)
    then show ?thesis by auto
  qed
qed

definition entry_points :: "point_map \<Rightarrow> point set" where
  "entry_points m = (\<lambda>e. fst (snd e)) ` set m"

lemma emplace_entries:
  assumes "emplace s d p = Inr s'"
  shows "entry_points (fst s') \<subseteq> insert p (entry_points (fst s))"
    and "length (fst s') \<le> Suc (length (fst s))"
proof -
  from assms obtain ptr pl where alloc: "allocate (snd s) 1 = Inr (ptr, pl)"
    by (auto simp: emplace_def split: sum.splits)
  show "entry_points (fst s') \<subseteq> insert p (entry_points (fst s))"
  proof (cases "map_insert (d, p, ptr) (fst s)")
    case None
    with assms alloc show ?thesis by (auto simp: emplace_def)
  next
    case (Some m)
    with assms alloc have "fst s' = m" by (auto simp: emplace_def)
    with set_map_insert [OF Some] show ?thesis by (auto simp: entry_points_def)
  qed
  show "length (fst s') \<le> Suc (length (fst s))"
  proof (cases "map_insert (d, p, ptr) (fst s)")
    case None
    with assms alloc show ?thesis by (auto simp: emplace_def)
  next
    case (Some m)
    with assms alloc have "fst s' = m" by (auto simp: emplace_def)
    with set_map_insert [OF Some] show ?thesis by simp
  qed
qed

lemma evict_entries:
  shows "entry_points (fst (evict k s)) \<subseteq> entry_points (fst s)"
    and "length (fst s) \<le> Suc k \<Longrightarrow> length (fst (evict k s)) \<le> k"
  by (auto simp: evict_def erase_last_def entry_points_def dest: in_set_butlastD)

lemma nearest_impl_entries:
  "nearest_impl h key k t s rect_now = Inr s' \<Longrightarrow> length (fst s) \<le> k \<Longrightarrow>
     entry_points (fst s') \<subseteq> entry_points (fst s) \<union> set (points_of t)
     \<and> length (fst s') \<le> k"
proof (induction t arbitrary: s s' rect_now)
  case Null
  then show ?case by auto
next
  case (Node p ori l r sz)
  from Node.prems(1) obtain s1 where s1: "emplace s (distance h key p) p = Inr s1"
    by (auto split: sum.splits)
  let ?s2 = "evict k s1"
  from emplace_entries(1) [OF s1] evict_entries(1) [of k s1]
  have sub2: "entry_points (fst ?s2) \<subseteq> insert p (entry_points (fst s))" by blast
  from emplace_entries(2) [OF s1] Node.prems(2) have "length (fst s1) \<le> Suc k" by simp
  then have len2: "length (fst ?s2) \<le> k" by (rule evict_entries(2))
  show ?case
  proof (cases "fst ?s2 \<noteq> [] \<and> \<not> dgt (rdistance h rect_now key) (fst (last (fst ?s2)))")
    case False
    with Node.prems(1) s1 have "s' = ?s2" by (auto split: if_splits)
    with sub2 len2 show ?thesis by auto
  next
    case True
    with Node.prems(1) s1 obtain s3 where
      s3: "nearest_impl h key k l ?s2 (fst (split rect_now p ori)) = Inr s3" and
      s': "nearest_impl h key k r s3 (snd (split rect_now p ori)) = Inr s'"
      by (auto split: sum.splits if_splits)
    from Node.IH(1) [OF s3 len2] have l:
      "entry_points (fst s3) \<subseteq> entry_points (fst ?s2) \<union> set (points_of l)"
      "length (fst s3) \<le> k" by simp_all
    from Node.IH(2) [OF s' l(2)] have r:
      "entry_points (fst s') \<subseteq> entry_points (fst s3) \<union> set (points_of r)"
      "length (fst s') \<le> k" by simp_all
    have "entry_points (fst s') \<subseteq> entry_points (fst s) \<union> set (points_of (Node p ori l r sz))"
    proof
      fix x assume "x \<in> entry_points (fst s')"
      with r(1) l(1) sub2 have "x = p \<or> x \<in> entry_points (fst s) \<or> x \<in> set (points_of l)
          \<or> x \<in> set (points_of r)" by blast
      then show "x \<in> entry_points (fst s) \<union> set (points_of (Node p ori l r sz))" by auto
    qed
    with r(2) show ?thesis by simp
  qed
qed

lemma range_part:
  assumes "\<not> at_end (fst (range rt key))"
  shows "snd (range rt key) = end_iterator
     \<and> enumerate_from (fst (range rt key)) = range_set rt key
     \<and> (\<forall>n. at_end ((increment ^^ n) (fst (range rt key))) = (length (range_set rt key) \<le> n))
     \<and> successively plt (range_set rt key)
     \<and> set (range_set rt key) \<subseteq> set (range_collected key rt whole_plane)
     \<and> set (range_collected key rt whole_plane) \<subseteq> {p \<in> set (points_of rt). rcontains key p}
     \<and> (\<forall>p\<in>set (range_collected key rt whole_plane).
           \<exists>q\<in>set (range_set rt key). \<not> plt q p \<and> \<not> plt p q)
     \<and> (\<forall>heap. detached_chain heap (range_set rt key) (now (fst (range rt key))))"
proof -
  from assms have "range_set rt key \<noteq> []"
    by (auto simp: range_def end_iterator_def at_end_def split: if_splits)
  then obtain p ps where ps: "range_set rt key = p # ps"
    by (cases "range_set rt key") auto
  have fold: "range_set rt key =
      set_elems (foldl (\<lambda>s p. set_insert p s) RBLeaf (range_collected key rt whole_plane))"
    by (simp add: range_set_def range_impl_fold)
  have ord: "successively plt (range_set rt key)"
    unfolding fold by (rule successively_fold_insert) simp
  have sub: "set (range_set rt key) \<subseteq> set (range_collected key rt whole_plane)"
    unfolding fold using set_fold_insert_subset [of RBLeaf "range_collected key rt whole_plane"]
    by simp
  have cov: "\<forall>p\<in>set (range_collected key rt whole_plane).
      \<exists>q\<in>set (range_set rt key). \<not> plt q p \<and> \<not> plt p q"
    unfolding fold by (blast intro: fold_insert_represented)
  have protocol: "snd (range rt key) = end_iterator
     \<and> enumerate_from (fst (range rt key)) = range_set rt key
     \<and> (\<forall>n. at_end ((increment ^^ n) (fst (range rt key))) = (length (range_set rt key) \<le> n))
     \<and> (\<forall>heap. detached_chain heap (range_set rt key) (now (fst (range rt key))))"
    by (simp add: range_def ps iterator_at_def enumerate_chain steps_chain
        detached_chain_save_tree)
  from protocol ord sub cov range_collected_stored [of key rt whole_plane]
  show ?thesis by blast
qed

lemma nearest_part:
  assumes "fst (nearest std_hypot live rt q k) = Inr (first, second)" and "\<not> at_end first"
  shows "\<exists>s. nearest_impl std_hypot q k rt ([], Pool sizeof_map_node ((k + 1) mod 2 ^ 64))
              whole_plane = Inr s
     \<and> second = end_iterator
     \<and> enumerate_from first = points_in_order (fst s)
     \<and> (\<forall>n. at_end ((increment ^^ n) first) = (length (points_in_order (fst s)) \<le> n))
     \<and> successively plt (points_in_order (fst s))
     \<and> set (points_in_order (fst s)) \<subseteq> entry_points (fst s)
     \<and> entry_points (fst s) \<subseteq> set (points_of rt)
     \<and> length (fst s) \<le> k
     \<and> length (points_in_order (fst s)) \<le> k
     \<and> (\<forall>p\<in>entry_points (fst s).
           \<exists>q\<in>set (points_in_order (fst s)). \<not> plt q p \<and> \<not> plt p q)
     \<and> (\<forall>heap. detached_chain heap (points_in_order (fst s)) (now first))"
proof -
  from assms have k: "k \<noteq> 0"
    by (auto simp: nearest_def end_iterator_def at_end_def split: if_splits)
  with assms obtain s where
    s: "nearest_impl std_hypot q k rt ([], Pool sizeof_map_node ((k + 1) mod 2 ^ 64)) whole_plane
        = Inr s"
    and ne: "fst s \<noteq> []"
    and first: "first = iterator_at (save_tree (points_in_order (fst s)))"
    and second: "second = end_iterator"
    by (auto simp: nearest_def create_pool_def end_iterator_def at_end_def
        split: sum.splits if_splits)
  let ?ps = "map (\<lambda>e. fst (snd e)) (fst s)"
  have set_ps: "set ?ps = entry_points (fst s)"
    by (simp add: entry_points_def)
  from ne obtain e where "e \<in> set (fst s)" by (cases "fst s") auto
  then have "fst (snd e) \<in> set ?ps" by simp
  from fold_insert_represented [OF this, of RBLeaf]
  have "points_in_order (fst s) \<noteq> []"
    unfolding points_in_order_fold by auto
  then obtain p ps where ps: "points_in_order (fst s) = p # ps"
    by (cases "points_in_order (fst s)") auto
  have ord: "successively plt (points_in_order (fst s))"
    unfolding points_in_order_fold by (rule successively_fold_insert) simp
  have sub: "set (points_in_order (fst s)) \<subseteq> entry_points (fst s)"
    unfolding points_in_order_fold using set_fold_insert_subset [of RBLeaf ?ps] set_ps by simp
  have cov: "\<forall>p\<in>entry_points (fst s).
      \<exists>q\<in>set (points_in_order (fst s)). \<not> plt q p \<and> \<not> plt p q"
    unfolding points_in_order_fold set_ps [symmetric] by (blast intro: fold_insert_represented)
  from nearest_impl_entries [OF s] have stored: "entry_points (fst s) \<subseteq> set (points_of rt)"
    and len: "length (fst s) \<le> k"
    by (simp_all add: entry_points_def)
  have "length (points_in_order (fst s)) \<le> length ?ps"
    unfolding points_in_order_fold using length_fold_insert [of RBLeaf ?ps] by simp
  with len have len': "length (points_in_order (fst s)) \<le> k" by simp
  have protocol: "enumerate_from first = points_in_order (fst s)
     \<and> (\<forall>n. at_end ((increment ^^ n) first) = (length (points_in_order (fst s)) \<le> n))
     \<and> (\<forall>heap. detached_chain heap (points_in_order (fst s)) (now first))"
    by (simp add: first ps iterator_at_def enumerate_chain steps_chain detached_chain_save_tree)
  from s second protocol ord sub stored len len' cov show ?thesis by blast
qed

text \<open>The candidates of a nearest-neighbour search.\<close>

lemma dlt_trans: "dlt a b \<Longrightarrow> dlt b c \<Longrightarrow> dlt a c"
  by (cases a; cases b; cases c) auto

definition nearer :: "dbl \<Rightarrow> point_map \<Rightarrow> bool" where
  "nearer d m = (\<exists>e\<in>set m. \<not> dlt d (fst e))"

lemma map_insert_None:
  "map_insert e m = None \<Longrightarrow> nearer (fst e) m"
proof (induction m)
  case Nil
  then show ?case by simp
next
  case (Cons f fs)
  show ?case
  proof (cases "dlt (fst f) (fst e)")
    case True
    with Cons.prems have "map_insert e fs = None"
      by (cases "map_insert e fs") auto
    from Cons.IH [OF this] show ?thesis by (auto simp: nearer_def)
  next
    case False
    with Cons.prems have "\<not> dlt (fst e) (fst f)" by (simp split: if_splits)
    then show ?thesis by (auto simp: nearer_def)
  qed
qed

lemma map_insert_sorted:
  "sorted_wrt dlt (map fst m) \<Longrightarrow> map_insert e m = Some m' \<Longrightarrow> sorted_wrt dlt (map fst m')"
proof (induction m arbitrary: m')
  case Nil
  then show ?case by auto
next
  case (Cons f fs)
  show ?case
  proof (cases "dlt (fst f) (fst e)")
    case True
    with Cons.prems(2) obtain fs' where fs': "map_insert e fs = Some fs'" and m': "m' = f # fs'"
      by (cases "map_insert e fs") auto
    from Cons.prems(1) have "sorted_wrt dlt (map fst fs)" by simp
    from Cons.IH [OF this fs'] have "sorted_wrt dlt (map fst fs')" .
    moreover from set_map_insert [OF fs'] have "set fs' = insert e (set fs)" by simp
    ultimately show ?thesis using Cons.prems(1) True m' by auto
  next
    case False
    with Cons.prems(2) have lt: "dlt (fst e) (fst f)" and m': "m' = e # f # fs"
      by (simp_all split: if_splits)
    from Cons.prems(1) lt have "\<forall>g\<in>set fs. dlt (fst e) (fst g)"
      by (auto intro: dlt_trans)
    with Cons.prems(1) lt m' show ?thesis by auto
  qed
qed

lemma emplace_candidates:
  assumes "emplace s d p = Inr s'"
  shows "sorted_wrt dlt (map fst (fst s)) \<Longrightarrow> sorted_wrt dlt (map fst (fst s'))"
    and "list_all (\<lambda>e. fst e = f (fst (snd e))) (fst s) \<Longrightarrow> d = f p \<Longrightarrow>
         list_all (\<lambda>e. fst e = f (fst (snd e))) (fst s')"
    and "nearer c (fst s) \<Longrightarrow> nearer c (fst s')"
    and "nearer d (fst s')"
proof -
  from assms obtain ptr pl where alloc: "allocate (snd s) 1 = Inr (ptr, pl)"
    by (auto simp: emplace_def split: sum.splits)
  show "sorted_wrt dlt (map fst (fst s'))" if "sorted_wrt dlt (map fst (fst s))"
  proof (cases "map_insert (d, p, ptr) (fst s)")
    case None
    with assms alloc that show ?thesis by (auto simp: emplace_def)
  next
    case (Some m)
    with assms alloc have "fst s' = m" by (auto simp: emplace_def)
    with map_insert_sorted [OF that Some] show ?thesis by simp
  qed
  show "list_all (\<lambda>e. fst e = f (fst (snd e))) (fst s')"
    if "list_all (\<lambda>e. fst e = f (fst (snd e))) (fst s)" "d = f p"
  proof (cases "map_insert (d, p, ptr) (fst s)")
    case None
    with assms alloc that show ?thesis by (auto simp: emplace_def)
  next
    case (Some m)
    with assms alloc have "fst s' = m" by (auto simp: emplace_def)
    with set_map_insert [OF Some] that show ?thesis by (auto simp: list_all_iff)
  qed
  show "nearer c (fst s')" if "nearer c (fst s)"
  proof (cases "map_insert (d, p, ptr) (fst s)")
    case None
    with assms alloc that show ?thesis by (auto simp: emplace_def)
  next
    case (Some m)
    with assms alloc have "fst s' = m" by (auto simp: emplace_def)
    with set_map_insert [OF Some] that show ?thesis by (auto simp: nearer_def)
  qed
  show "nearer d (fst s')"
  proof (cases "map_insert (d, p, ptr) (fst s)")
    case None
    with assms alloc have "fst s' = fst s" by (auto simp: emplace_def)
    with map_insert_None [OF None] show ?thesis by simp
  next
    case (Some m)
    with assms alloc have "fst s' = m" by (auto simp: emplace_def)
    with set_map_insert [OF Some] show ?thesis by (auto simp: nearer_def)
  qed
qed

lemma sorted_wrt_butlast: "sorted_wrt P xs \<Longrightarrow> sorted_wrt P (butlast xs)"
  by (induction xs) (auto dest: in_set_butlastD)

lemma nearer_butlast:
  assumes "sorted_wrt dlt (map fst m)" and "2 \<le> length m" and "nearer c m"
  shows "nearer c (butlast m)"
proof -
  from assms(3) obtain e where e: "e \<in> set m" "\<not> dlt c (fst e)" by (auto simp: nearer_def)
  from assms(2) have "m \<noteq> []" by auto
  then obtain xs x where m: "m = xs @ [x]"
    by (cases m rule: rev_cases) auto
  with assms(2) have xs: "xs \<noteq> []" by auto
  show ?thesis
  proof (cases "e \<in> set xs")
    case True
    with e m show ?thesis by (auto simp: nearer_def)
  next
    case False
    with e m have ex: "e = x" by simp
    from xs obtain y where y: "y \<in> set xs" by (cases xs) auto
    with assms(1) m have "dlt (fst y) (fst x)" by (auto simp: sorted_wrt_append)
    with e(2) ex have "\<not> dlt c (fst y)" by (blast intro: dlt_trans)
    with y m show ?thesis by (auto simp: nearer_def)
  qed
qed

lemma evict_candidates:
  shows "sorted_wrt dlt (map fst (fst s)) \<Longrightarrow> sorted_wrt dlt (map fst (fst (evict k s)))"
    and "list_all Q (fst s) \<Longrightarrow> list_all Q (fst (evict k s))"
    and "sorted_wrt dlt (map fst (fst s)) \<Longrightarrow> 0 < k \<Longrightarrow> nearer c (fst s) \<Longrightarrow>
         nearer c (fst (evict k s))"
proof -
  show "sorted_wrt dlt (map fst (fst (evict k s)))" if "sorted_wrt dlt (map fst (fst s))"
    using that sorted_wrt_butlast [of dlt "map fst (fst s)"]
    by (simp add: evict_def erase_last_def map_butlast)
  show "list_all Q (fst (evict k s))" if "list_all Q (fst s)"
    using that by (auto simp: evict_def erase_last_def list_all_iff dest: in_set_butlastD)
  show "nearer c (fst (evict k s))"
    if "sorted_wrt dlt (map fst (fst s))" "0 < k" "nearer c (fst s)"
    using that nearer_butlast [of "fst s" c] by (simp add: evict_def erase_last_def)
qed

lemma nearest_impl_candidates:
  assumes "nearest_impl h key k t s rect_now = Inr s'" and "0 < k"
    and "sorted_wrt dlt (map fst (fst s))"
    and "list_all (\<lambda>e. fst e = distance h key (fst (snd e))) (fst s)"
  shows "sorted_wrt dlt (map fst (fst s'))
     \<and> list_all (\<lambda>e. fst e = distance h key (fst (snd e))) (fst s')
     \<and> (\<forall>c. nearer c (fst s) \<longrightarrow> nearer c (fst s'))
     \<and> (t \<noteq> Null \<longrightarrow> nearer (distance h key (npoint t)) (fst s'))"
  using assms
proof (induction t arbitrary: s s' rect_now)
  case Null
  then show ?case by auto
next
  case (Node p ori l r sz)
  from Node.prems(1) obtain s1 where s1: "emplace s (distance h key p) p = Inr s1"
    by (auto split: sum.splits)
  let ?s2 = "evict k s1"
  note e = emplace_candidates [OF s1]
  from e(1) Node.prems(3) have sorted1: "sorted_wrt dlt (map fst (fst s1))" .
  from e(2) [of "distance h key"] Node.prems(4)
  have dist1: "list_all (\<lambda>e. fst e = distance h key (fst (snd e))) (fst s1)" by simp
  from sorted1 have sorted2: "sorted_wrt dlt (map fst (fst ?s2))" by (rule evict_candidates(1))
  from dist1 have dist2: "list_all (\<lambda>e. fst e = distance h key (fst (snd e))) (fst ?s2)"
    by (rule evict_candidates(2))
  have keep2: "nearer c (fst ?s2)" if "nearer c (fst s)" for c
    using that e(3) evict_candidates(3) [OF sorted1 Node.prems(2)] by blast
  have own2: "nearer (distance h key p) (fst ?s2)"
    using e(4) evict_candidates(3) [OF sorted1 Node.prems(2)] by blast
  show ?case
  proof (cases "fst ?s2 \<noteq> [] \<and> \<not> dgt (rdistance h rect_now key) (fst (last (fst ?s2)))")
    case False
    with Node.prems(1) s1 have "s' = ?s2" by (auto split: if_splits)
    with sorted2 dist2 keep2 own2 show ?thesis by simp
  next
    case True
    with Node.prems(1) s1 obtain s3 where
      s3: "nearest_impl h key k l ?s2 (fst (split rect_now p ori)) = Inr s3" and
      s': "nearest_impl h key k r s3 (snd (split rect_now p ori)) = Inr s'"
      by (auto split: sum.splits if_splits)
    from Node.IH(1) [OF s3 Node.prems(2) sorted2 dist2] have l:
      "sorted_wrt dlt (map fst (fst s3))"
      "list_all (\<lambda>e. fst e = distance h key (fst (snd e))) (fst s3)"
      "\<And>c. nearer c (fst ?s2) \<Longrightarrow> nearer c (fst s3)" by simp_all
    from Node.IH(2) [OF s' Node.prems(2) l(1,2)] have r:
      "sorted_wrt dlt (map fst (fst s'))"
      "list_all (\<lambda>e. fst e = distance h key (fst (snd e))) (fst s')"
      "\<And>c. nearer c (fst s3) \<Longrightarrow> nearer c (fst s')" by simp_all
    from r l(3) keep2 own2 show ?thesis by simp
  qed
qed

lemma nearest_result:
  assumes "fst (nearest std_hypot live rt q k) = Inr (first, second)" and "\<not> at_end first"
  shows "\<exists>s. nearest_impl std_hypot q k rt ([], Pool sizeof_map_node ((k + 1) mod 2 ^ 64))
              whole_plane = Inr s
     \<and> second = end_iterator
     \<and> enumerate_from first = points_in_order (fst s)
     \<and> (\<forall>n. at_end ((increment ^^ n) first) = (length (points_in_order (fst s)) \<le> n))
     \<and> successively plt (points_in_order (fst s))
     \<and> set (points_in_order (fst s)) \<subseteq> entry_points (fst s)
     \<and> (\<forall>p\<in>entry_points (fst s).
           \<exists>q\<in>set (points_in_order (fst s)). \<not> plt q p \<and> \<not> plt p q)
     \<and> entry_points (fst s) \<subseteq> set (points_of rt)
     \<and> length (fst s) \<le> k
     \<and> sorted_wrt dlt (map fst (fst s))
     \<and> list_all (\<lambda>e. fst e = distance std_hypot q (fst (snd e))) (fst s)
     \<and> rt \<noteq> Null
     \<and> (\<exists>p\<in>entry_points (fst s).
           \<not> dlt (distance std_hypot q (npoint rt)) (distance std_hypot q p))
     \<and> (\<forall>heap. detached_chain heap (points_in_order (fst s)) (now first))"
proof -
  from nearest_part [OF assms] obtain s where
    s: "nearest_impl std_hypot q k rt ([], Pool sizeof_map_node ((k + 1) mod 2 ^ 64)) whole_plane
        = Inr s"
    and rest: "second = end_iterator
     \<and> enumerate_from first = points_in_order (fst s)
     \<and> (\<forall>n. at_end ((increment ^^ n) first) = (length (points_in_order (fst s)) \<le> n))
     \<and> successively plt (points_in_order (fst s))
     \<and> set (points_in_order (fst s)) \<subseteq> entry_points (fst s)
     \<and> entry_points (fst s) \<subseteq> set (points_of rt)
     \<and> length (fst s) \<le> k
     \<and> length (points_in_order (fst s)) \<le> k
     \<and> (\<forall>p\<in>entry_points (fst s).
           \<exists>q\<in>set (points_in_order (fst s)). \<not> plt q p \<and> \<not> plt p q)
     \<and> (\<forall>heap. detached_chain heap (points_in_order (fst s)) (now first))"
    by blast
  from assms have k: "0 < k"
    by (auto simp: nearest_def end_iterator_def at_end_def split: if_splits)
  from assms s have "fst s \<noteq> []"
    by (auto simp: nearest_def create_pool_def end_iterator_def at_end_def split: if_splits)
  with s have rt: "rt \<noteq> Null" by auto
  from nearest_impl_candidates [OF s k] have
    sorted: "sorted_wrt dlt (map fst (fst s))" and
    dist: "list_all (\<lambda>e. fst e = distance std_hypot q (fst (snd e))) (fst s)" and
    "rt \<noteq> Null \<longrightarrow> nearer (distance std_hypot q (npoint rt)) (fst s)"
    by simp_all
  with rt obtain e where e: "e \<in> set (fst s)" "\<not> dlt (distance std_hypot q (npoint rt)) (fst e)"
    by (auto simp: nearer_def)
  with dist have "\<not> dlt (distance std_hypot q (npoint rt)) (distance std_hypot q (fst (snd e)))"
    by (auto simp: list_all_iff)
  with e(1) have root: "\<exists>p\<in>entry_points (fst s).
      \<not> dlt (distance std_hypot q (npoint rt)) (distance std_hypot q p)"
    by (auto simp: entry_points_def)
  from s rest sorted dist rt root show ?thesis by blast
qed

lemma enumerate_range:
  "range_set rt key \<noteq> [] \<Longrightarrow> enumerate_from (fst (range rt key)) = range_set rt key"
  by (cases "range_set rt key") (simp_all add: range_def iterator_at_def enumerate_chain)

text \<open>
  C10, as stated: the iterators enumerate distinct points in strictly increasing order
  under \<^verbatim>\<open>Point::operator<\<close>. The comparison is not transitive, and the set compares a
  new point only with the elements on its way down the tree. With \<open>u = 2\<^sup>-\<^sup>5\<^sup>4\<close> and the
  points \<open>A = (8u, 9u)\<close>, \<open>B = (3u, 9u)\<close>, \<open>C = (8u, 0)\<close>, \<open>D = (6u, 3u)\<close> put in that
  order, the range query \<open>[-1, 1] \<times> [-1, 1]\<close> enumerates \<open>D\<close>, \<open>B\<close>, \<open>C\<close>, \<open>A\<close>: on its way
  down \<open>D\<close> meets \<open>B\<close> and \<open>A\<close> only, and \<open>D\<close> and \<open>C\<close> are equal within epsilon, so the
  result holds two equal points and \<open>D\<close> comes before \<open>C\<close> without being below it.
\<close>

theorem enumeration_repeats_equal_point:
  "enumerate_from (fst (range
       (put_all Null
          [Point (Fin (8 / 2 ^ 54)) (Fin (9 / 2 ^ 54)), Point (Fin (3 / 2 ^ 54)) (Fin (9 / 2 ^ 54)),
           Point (Fin (8 / 2 ^ 54)) (Fin 0), Point (Fin (6 / 2 ^ 54)) (Fin (3 / 2 ^ 54))])
       (Rect (Point (Fin (- 1)) (Fin (- 1))) (Point (Fin 1) (Fin 1)))))
     = [Point (Fin (6 / 2 ^ 54)) (Fin (3 / 2 ^ 54)), Point (Fin (3 / 2 ^ 54)) (Fin (9 / 2 ^ 54)),
        Point (Fin (8 / 2 ^ 54)) (Fin 0), Point (Fin (8 / 2 ^ 54)) (Fin (9 / 2 ^ 54))]
   \<and> peq (Point (Fin (6 / 2 ^ 54)) (Fin (3 / 2 ^ 54))) (Point (Fin (8 / 2 ^ 54)) (Fin 0))
   \<and> \<not> plt (Point (Fin (6 / 2 ^ 54)) (Fin (3 / 2 ^ 54))) (Point (Fin (8 / 2 ^ 54)) (Fin 0))"
proof -
  have "range_set
       (put_all Null
          [Point (Fin (8 / 2 ^ 54)) (Fin (9 / 2 ^ 54)), Point (Fin (3 / 2 ^ 54)) (Fin (9 / 2 ^ 54)),
           Point (Fin (8 / 2 ^ 54)) (Fin 0), Point (Fin (6 / 2 ^ 54)) (Fin (3 / 2 ^ 54))])
       (Rect (Point (Fin (- 1)) (Fin (- 1))) (Point (Fin 1) (Fin 1)))
     = [Point (Fin (6 / 2 ^ 54)) (Fin (3 / 2 ^ 54)), Point (Fin (3 / 2 ^ 54)) (Fin (9 / 2 ^ 54)),
        Point (Fin (8 / 2 ^ 54)) (Fin 0), Point (Fin (8 / 2 ^ 54)) (Fin (9 / 2 ^ 54))]"
    by (simp add: range_set_def dbl_defs geo_defs tree_defs set_defs)
  moreover from this have "enumerate_from (fst (range
       (put_all Null
          [Point (Fin (8 / 2 ^ 54)) (Fin (9 / 2 ^ 54)), Point (Fin (3 / 2 ^ 54)) (Fin (9 / 2 ^ 54)),
           Point (Fin (8 / 2 ^ 54)) (Fin 0), Point (Fin (6 / 2 ^ 54)) (Fin (3 / 2 ^ 54))])
       (Rect (Point (Fin (- 1)) (Fin (- 1))) (Point (Fin 1) (Fin 1)))))
     = range_set
       (put_all Null
          [Point (Fin (8 / 2 ^ 54)) (Fin (9 / 2 ^ 54)), Point (Fin (3 / 2 ^ 54)) (Fin (9 / 2 ^ 54)),
           Point (Fin (8 / 2 ^ 54)) (Fin 0), Point (Fin (6 / 2 ^ 54)) (Fin (3 / 2 ^ 54))])
       (Rect (Point (Fin (- 1)) (Fin (- 1))) (Point (Fin 1) (Fin 1)))"
    by (intro enumerate_range) simp
  moreover have
    "peq (Point (Fin (6 / 2 ^ 54)) (Fin (3 / 2 ^ 54))) (Point (Fin (8 / 2 ^ 54)) (Fin 0))"
    "\<not> plt (Point (Fin (6 / 2 ^ 54)) (Fin (3 / 2 ^ 54))) (Point (Fin (8 / 2 ^ 54)) (Fin 0))"
    by (simp_all add: dbl_defs geo_defs)
  ultimately show ?thesis by (simp only: simp_thms)
qed

text \<open>
  C10, amended: for every range or k-nearest query whose result is not empty, the second
  iterator of the returned pair is the default-constructed end sentinel, and the first
  reaches it after exactly one increment per enumerated point. The first iterator
  enumerates the result points as the \<^verbatim>\<open>std::set\<close> of the query holds them, in the
  iteration order of the set: every enumerated point is a result point, every result point
  is enumerated or is equivalent under \<^verbatim>\<open>Point::operator<\<close> to an enumerated point, and
  each enumerated point is below its successor under \<^verbatim>\<open>Point::operator<\<close>; points that
  are not neighbours may be equal within epsilon. The result points of a range query are
  the points of the nodes that the search reaches and that lie inside the rectangle, all of
  them stored points inside the rectangle. The result points of a k-nearest query are the
  points of the candidates that the search has kept: at most \<open>k\<close>, all of them stored
  points, each kept under its distance from the key, the distances strictly increasing,
  and one of them no farther from the key than the point of the root. The enumerated chain
  is detached from the nodes of the index: whatever nodes exist when \<^verbatim>\<open>save_tree\<close> runs,
  it makes every node of the chain anew, leaves every existing node as it was, gives the
  new nodes pointers to new nodes only, and the new nodes read from the first are the chain
  that the first iterator walks.
\<close>

theorem query_result_enumeration:
  "(\<not> at_end (fst (range rt key)) \<longrightarrow>
      snd (range rt key) = end_iterator
    \<and> enumerate_from (fst (range rt key)) = range_set rt key
    \<and> (\<forall>n. at_end ((increment ^^ n) (fst (range rt key))) = (length (range_set rt key) \<le> n))
    \<and> successively plt (range_set rt key)
    \<and> set (range_set rt key) \<subseteq> set (range_collected key rt whole_plane)
    \<and> set (range_collected key rt whole_plane) \<subseteq> {p \<in> set (points_of rt). rcontains key p}
    \<and> (\<forall>p\<in>set (range_collected key rt whole_plane).
          \<exists>q\<in>set (range_set rt key). \<not> plt q p \<and> \<not> plt p q)
    \<and> (\<forall>heap. detached_chain heap (range_set rt key) (now (fst (range rt key)))))
   \<and> (fst (nearest std_hypot live rt' q k) = Inr (first, second) \<and> \<not> at_end first \<longrightarrow>
      (\<exists>s. nearest_impl std_hypot q k rt' ([], Pool sizeof_map_node ((k + 1) mod 2 ^ 64))
              whole_plane = Inr s
        \<and> second = end_iterator
        \<and> enumerate_from first = points_in_order (fst s)
        \<and> (\<forall>n. at_end ((increment ^^ n) first) = (length (points_in_order (fst s)) \<le> n))
        \<and> successively plt (points_in_order (fst s))
        \<and> set (points_in_order (fst s)) \<subseteq> entry_points (fst s)
        \<and> (\<forall>p\<in>entry_points (fst s).
              \<exists>q\<in>set (points_in_order (fst s)). \<not> plt q p \<and> \<not> plt p q)
        \<and> entry_points (fst s) \<subseteq> set (points_of rt')
        \<and> length (fst s) \<le> k
        \<and> sorted_wrt dlt (map fst (fst s))
        \<and> list_all (\<lambda>e. fst e = distance std_hypot q (fst (snd e))) (fst s)
        \<and> rt' \<noteq> Null
        \<and> (\<exists>p\<in>entry_points (fst s).
              \<not> dlt (distance std_hypot q (npoint rt')) (distance std_hypot q p))
        \<and> (\<forall>heap. detached_chain heap (points_in_order (fst s)) (now first))))"
  using range_part [of rt key] nearest_result [of std_hypot live rt' q k first second] by blast

theorem query_result_enumeration_witness:
  "\<not> at_end (fst (range (put_all Null [Point (Fin 1) (Fin 2), Point (Fin 3) (Fin 4)])
        (Rect (Point (Fin 0) (Fin 0)) (Point (Fin 4) (Fin 5)))))
   \<and> range_collected (Rect (Point (Fin 0) (Fin 0)) (Point (Fin 4) (Fin 5)))
        (put_all Null [Point (Fin 1) (Fin 2), Point (Fin 3) (Fin 4)]) whole_plane
     = [Point (Fin 1) (Fin 2), Point (Fin 3) (Fin 4)]
   \<and> enumerate_from (fst (range (put_all Null [Point (Fin 1) (Fin 2), Point (Fin 3) (Fin 4)])
        (Rect (Point (Fin 0) (Fin 0)) (Point (Fin 4) (Fin 5)))))
     = [Point (Fin 1) (Fin 2), Point (Fin 3) (Fin 4)]
   \<and> \<not> at_end ((increment ^^ 1)
        (fst (range (put_all Null [Point (Fin 1) (Fin 2), Point (Fin 3) (Fin 4)])
          (Rect (Point (Fin 0) (Fin 0)) (Point (Fin 4) (Fin 5))))))
   \<and> at_end ((increment ^^ 2)
        (fst (range (put_all Null [Point (Fin 1) (Fin 2), Point (Fin 3) (Fin 4)])
          (Rect (Point (Fin 0) (Fin 0)) (Point (Fin 4) (Fin 5))))))
   \<and> fst (nearest (\<lambda>a b. Fin (sqrt (a * a + b * b))) 0
        (put_all Null [Point (Fin 1) (Fin 0), Point (Fin 0) (Fin 2)]) (Point (Fin 0) (Fin 0)) 2)
     = Inr (iterator_at (save_tree [Point (Fin 0) (Fin 2), Point (Fin 1) (Fin 0)]), end_iterator)
   \<and> \<not> at_end (iterator_at (save_tree [Point (Fin 0) (Fin 2), Point (Fin 1) (Fin 0)]))
   \<and> enumerate_from (iterator_at (save_tree [Point (Fin 0) (Fin 2), Point (Fin 1) (Fin 0)]))
     = [Point (Fin 0) (Fin 2), Point (Fin 1) (Fin 0)]
   \<and> \<not> at_end ((increment ^^ 1)
        (iterator_at (save_tree [Point (Fin 0) (Fin 2), Point (Fin 1) (Fin 0)])))
   \<and> at_end ((increment ^^ 2)
        (iterator_at (save_tree [Point (Fin 0) (Fin 2), Point (Fin 1) (Fin 0)])))"
proof -
  let ?rt = "put_all Null [Point (Fin 1) (Fin 2), Point (Fin 3) (Fin 4)]"
  let ?key = "Rect (Point (Fin 0) (Fin 0)) (Point (Fin 4) (Fin 5))"
  let ?h = "\<lambda>a b. Fin (sqrt (a * a + b * b))"
  let ?rt' = "put_all Null [Point (Fin 1) (Fin 0), Point (Fin 0) (Fin 2)]"
  let ?q = "Point (Fin 0) (Fin 0)"
  let ?first = "iterator_at (save_tree [Point (Fin 0) (Fin 2), Point (Fin 1) (Fin 0)])"
  let ?s = "([(Fin 1, Point (Fin 1) (Fin 0), 0), (Fin 2, Point (Fin 0) (Fin 2), 56)],
      \<lparr>m_obj_size = 56, m_used_map = [True, True, False]\<rparr>)"
  have three: "replicate 3 False = [False, False, False]"
    by (simp add: numeral_3_eq_3)
  have set: "range_set ?rt ?key = [Point (Fin 1) (Fin 2), Point (Fin 3) (Fin 4)]"
    by (simp add: range_set_def dbl_defs geo_defs tree_defs set_defs)
  have collected: "range_collected ?key ?rt whole_plane
      = [Point (Fin 1) (Fin 2), Point (Fin 3) (Fin 4)]"
    by (simp add: dbl_defs geo_defs tree_defs)
  have live: "\<not> at_end (fst (range ?rt ?key))"
    unfolding range_def set by (simp add: iter_defs)
  have impl: "nearest_impl ?h ?q 2 ?rt' ([], Pool sizeof_map_node ((2 + 1) mod 2 ^ 64)) whole_plane
      = Inr ?s"
    by (simp add: sizeof_map_node_def emplace_def evict_def erase_last_def
        dbl_defs geo_defs tree_defs pool_defs three)
  have order: "points_in_order (fst ?s) = [Point (Fin 0) (Fin 2), Point (Fin 1) (Fin 0)]"
    by (simp add: points_in_order_def dbl_defs geo_defs set_defs)
  have near: "fst (nearest ?h 0 ?rt' ?q 2) = Inr (?first, end_iterator)"
    using impl order by (simp add: nearest_def create_pool_def)
  have live': "\<not> at_end ?first"
    by (simp add: iter_defs)
  note result = query_result_enumeration [where rt = ?rt and key = ?key and std_hypot = ?h
      and live = 0 and rt' = ?rt' and q = ?q and k = 2 and first = ?first
      and second = end_iterator]
  from result live have in_range:
    "enumerate_from (fst (range ?rt ?key)) = range_set ?rt ?key"
    "\<forall>n. at_end ((increment ^^ n) (fst (range ?rt ?key))) = (length (range_set ?rt ?key) \<le> n)"
    by blast+
  from result near live' obtain s where
    s: "nearest_impl ?h ?q 2 ?rt' ([], Pool sizeof_map_node ((2 + 1) mod 2 ^ 64)) whole_plane
        = Inr s"
    and in_nearest: "enumerate_from ?first = points_in_order (fst s)"
      "\<forall>n. at_end ((increment ^^ n) ?first) = (length (points_in_order (fst s)) \<le> n)"
    by blast
  from s impl have "s = ?s" by (simp only: sum.inject)
  with in_nearest order have in_nearest':
    "enumerate_from ?first = [Point (Fin 0) (Fin 2), Point (Fin 1) (Fin 0)]"
    "\<forall>n. at_end ((increment ^^ n) ?first)
       = (length [Point (Fin 0) (Fin 2), Point (Fin 1) (Fin 0)] \<le> n)"
    by (simp_all only: simp_thms)
  from in_range set have in_range':
    "enumerate_from (fst (range ?rt ?key)) = [Point (Fin 1) (Fin 2), Point (Fin 3) (Fin 4)]"
    "\<forall>n. at_end ((increment ^^ n) (fst (range ?rt ?key)))
       = (length [Point (Fin 1) (Fin 2), Point (Fin 3) (Fin 4)] \<le> n)"
    by (simp_all only: simp_thms)
  have steps: "\<not> at_end ((increment ^^ 1) (fst (range ?rt ?key)))"
    "at_end ((increment ^^ 2) (fst (range ?rt ?key)))"
    "\<not> at_end ((increment ^^ 1) ?first)"
    "at_end ((increment ^^ 2) ?first)"
    unfolding in_range'(2) [rule_format] in_nearest'(2) [rule_format] by simp_all
  from live collected in_range'(1) steps near live' in_nearest'(1)
  show ?thesis by (simp only: simp_thms)
qed

section \<open>What holds beside the departures\<close>

lemma size_of_put_loop_new:
  "\<not> contains t key \<Longrightarrow> size_of (put_loop ori key t) = Suc (size_of t)"
  by (cases t) (auto simp: size_of_def peq_sym)

lemma size_invariant_put_loop:
  "size_invariant t \<Longrightarrow> \<not> contains t key \<Longrightarrow> size_invariant (put_loop ori key t)"
proof (induction t arbitrary: ori)
  case Null
  show ?case by (simp add: size_of_def)
next
  case (Node p no l r sz)
  from Node.prems have inv: "sz = 1 + size_of l + size_of r" "size_invariant l" "size_invariant r"
    by (auto split: if_splits)
  from Node.prems(2) have ne: "\<not> peq key p" by (auto simp: peq_sym split: if_splits)
  show ?case
  proof (cases "goes_right no key p")
    case True
    with Node.prems(2) ne have nr: "\<not> contains r key" by (auto simp: peq_sym)
    from Node.IH(2) [OF inv(3) nr] size_of_put_loop_new [OF nr] inv ne True
    show ?thesis by simp
  next
    case False
    with Node.prems(2) ne have nl: "\<not> contains l key" by (auto simp: peq_sym)
    from Node.IH(1) [OF inv(2) nl] size_of_put_loop_new [OF nl] inv ne False
    show ?thesis by simp
  qed
qed

lemma size_of_count_nodes: "size_invariant t \<Longrightarrow> size_of t = count_nodes t"
  by (induction t) (auto simp: size_of_def split: if_splits)

lemma contains_put_loop_mono: "contains t q \<Longrightarrow> contains (put_loop ori p t) q"
  by (induction t arbitrary: ori) (auto split: if_splits)

lemma set_insert_sorted: "set (insert_sorted ax p qs) = insert p (set qs)"
  by (induction qs) auto

lemma set_sort_points: "set (sort_points ax ps) = set ps"
  by (induction ps) (simp_all add: set_insert_sorted)

lemma set_split_middle:
  assumes "m < length xs"
  shows "set xs = set (take m xs) \<union> {xs ! m} \<union> set (drop (Suc m) xs)"
proof -
  from assms have "xs = take m xs @ xs ! m # drop (Suc m) xs"
    by (rule id_take_nth_drop)
  then have "set xs = set (take m xs @ xs ! m # drop (Suc m) xs)" by simp
  then show ?thesis by (simp only: set_append set_simps) auto
qed

lemma balancing_keeps: "contains rt q \<Longrightarrow> contains (balancing ax ps rt) q"
proof (induction ax ps rt rule: balancing.induct)
  case (1 ax ps rt)
  show ?case
  proof (cases "ps = []")
    case True
    with 1 show ?thesis by (simp add: balancing.simps)
  next
    case False
    from "1.prems" have "contains (put rt (sort_points ax ps ! (length ps div 2))) q"
      by (simp add: put_def contains_put_loop_mono)
    from "1.IH"(1) [OF False this]
    have "contains (balancing (next_orientation ax) (take (length ps div 2) (sort_points ax ps))
            (put rt (sort_points ax ps ! (length ps div 2)))) q" .
    from "1.IH"(2) [OF False this] False show ?thesis
      by (subst balancing.simps) simp
  qed
qed

lemma balancing_stores:
  "s \<in> set ps \<Longrightarrow> finite_point s \<Longrightarrow> contains (balancing ax ps rt) s"
proof (induction ax ps rt rule: balancing.induct)
  case (1 ax ps rt)
  from "1.prems" have ne: "ps \<noteq> []" by auto
  let ?xs = "sort_points ax ps"
  let ?m = "length ps div 2"
  let ?t1 = "put rt (?xs ! ?m)"
  let ?t2 = "balancing (next_orientation ax) (take ?m ?xs) ?t1"
  have unfold: "balancing ax ps rt = balancing (next_orientation ax) (drop (Suc ?m) ?xs) ?t2"
    using ne by (subst balancing.simps) simp
  from ne have "?m < length ?xs" by (simp add: length_sort_points)
  from set_split_middle [OF this] "1.prems"(1)
  consider "s \<in> set (take ?m ?xs)" | "s = ?xs ! ?m" | "s \<in> set (drop (Suc ?m) ?xs)"
    by (auto simp: set_sort_points)
  then show ?case
  proof cases
    case 1
    from "1.IH"(1) [OF ne 1 "1.prems"(2)] have "contains ?t2 s" .
    then show ?thesis unfolding unfold by (rule balancing_keeps)
  next
    case 2
    with "1.prems"(2) have "contains ?t1 s"
      by (simp add: put_def contains_put_loop)
    then have "contains ?t2 s" by (rule balancing_keeps)
    then show ?thesis unfolding unfold by (rule balancing_keeps)
  next
    case 3
    from "1.IH"(2) [OF ne 3 "1.prems"(2)] show ?thesis unfolding unfold .
  qed
qed

lemma set_points_of_balancing:
  "set (points_of (balancing ax ps rt)) \<subseteq> set ps \<union> set (points_of rt)"
proof (induction ax ps rt rule: balancing.induct)
  case (1 ax ps rt)
  show ?case
  proof (cases "ps = []")
    case True
    then show ?thesis by (simp add: balancing.simps)
  next
    case False
    let ?xs = "sort_points ax ps"
    let ?m = "length ps div 2"
    let ?t1 = "put rt (?xs ! ?m)"
    let ?t2 = "balancing (next_orientation ax) (take ?m ?xs) ?t1"
    have unfold: "balancing ax ps rt = balancing (next_orientation ax) (drop (Suc ?m) ?xs) ?t2"
      using False by (subst balancing.simps) simp
    from False have m: "?m < length ?xs" by (simp add: length_sort_points)
    then have "?xs ! ?m \<in> set ps" using nth_mem [OF m] by (simp add: set_sort_points)
    with set_points_of_put_loop [of Vertical "?xs ! ?m" rt]
    have t1: "set (points_of ?t1) \<subseteq> set ps \<union> set (points_of rt)" by (auto simp: put_def)
    have "set (take ?m ?xs) \<subseteq> set ps" "set (drop (Suc ?m) ?xs) \<subseteq> set ps"
      using set_take_subset [of ?m ?xs] set_drop_subset [of "Suc ?m" ?xs]
      by (simp_all add: set_sort_points)
    with "1.IH"(1) [OF False] "1.IH"(2) [OF False] t1 show ?thesis
      unfolding unfold by blast
  qed
qed

lemma contains_sound: "contains t p \<Longrightarrow> \<exists>q\<in>set (points_of t). peq q p"
  by (induction t) (auto split: if_splits)

text \<open>
  Range search has no false positives: every point that the iterators of \<^verbatim>\<open>range\<close>
  enumerate is a point stored in the index and lies inside the query rectangle.
\<close>

theorem range_returns_stored_points_inside:
  assumes "p \<in> set (enumerate_from (fst (range rt key)))"
  shows "p \<in> set (points_of rt) \<and> rcontains key p"
proof (cases "range_set rt key = []")
  case True
  with assms show ?thesis
    by (simp add: range_def end_iterator_def enumerate_from.simps at_end_def)
next
  case False
  then have "enumerate_from (fst (range rt key)) = range_set rt key"
    by (rule enumerate_range)
  with assms have "p \<in> set (set_elems
      (foldl (\<lambda>s p. set_insert p s) RBLeaf (range_collected key rt whole_plane)))"
    by (simp add: range_set_def range_impl_fold)
  with set_fold_insert_subset [of RBLeaf "range_collected key rt whole_plane"]
    range_collected_stored [of key rt whole_plane]
  show ?thesis by auto
qed

theorem range_returns_stored_points_inside_witness:
  "Point (Fin 1) (Fin 2) \<in> set (enumerate_from (fst (range
      (put_all Null [Point (Fin 1) (Fin 2), Point (Fin 3) (Fin 4)])
      (Rect (Point (Fin 0) (Fin 0)) (Point (Fin 2) (Fin 5))))))
   \<and> Point (Fin 1) (Fin 2) \<in> set (points_of
      (put_all Null [Point (Fin 1) (Fin 2), Point (Fin 3) (Fin 4)]))
   \<and> rcontains (Rect (Point (Fin 0) (Fin 0)) (Point (Fin 2) (Fin 5))) (Point (Fin 1) (Fin 2))"
proof -
  have set: "range_set (put_all Null [Point (Fin 1) (Fin 2), Point (Fin 3) (Fin 4)])
      (Rect (Point (Fin 0) (Fin 0)) (Point (Fin 2) (Fin 5))) = [Point (Fin 1) (Fin 2)]"
    by (simp add: range_set_def dbl_defs geo_defs tree_defs set_defs)
  have "Point (Fin 1) (Fin 2) \<in> set (enumerate_from (fst (range
      (put_all Null [Point (Fin 1) (Fin 2), Point (Fin 3) (Fin 4)])
      (Rect (Point (Fin 0) (Fin 0)) (Point (Fin 2) (Fin 5))))))"
    unfolding range_def set by (simp add: iter_defs enumerate_from.simps)
  with range_returns_stored_points_inside
    [of "Point (Fin 1) (Fin 2)" "put_all Null [Point (Fin 1) (Fin 2), Point (Fin 3) (Fin 4)]"
        "Rect (Point (Fin 0) (Fin 0)) (Point (Fin 2) (Fin 5))"]
  show ?thesis by blast
qed

text \<open>
  A \<^verbatim>\<open>put\<close> of a point that \<^verbatim>\<open>contains\<close> does not find keeps the invariant of the cached
  sizes, raises the size of the index by one, and leaves the size equal to the number of
  nodes.
\<close>

theorem put_new_point_keeps_size_invariant:
  assumes "size_invariant rt" and "\<not> contains rt key"
  shows "size_invariant (put rt key) \<and> size_of (put rt key) = Suc (size_of rt)
     \<and> size_of (put rt key) = count_nodes (put rt key)"
  using assms size_invariant_put_loop [of rt key Vertical]
    size_of_put_loop_new [of rt key Vertical] size_of_count_nodes [of "put rt key"]
  by (simp add: put_def)

theorem put_new_point_keeps_size_invariant_witness:
  "size_invariant (put Null (Point (Fin 1) (Fin 1)))
   \<and> \<not> contains (put Null (Point (Fin 1) (Fin 1))) (Point (Fin 0) (Fin 0))
   \<and> size_invariant (put (put Null (Point (Fin 1) (Fin 1))) (Point (Fin 0) (Fin 0)))
   \<and> size_of (put (put Null (Point (Fin 1) (Fin 1))) (Point (Fin 0) (Fin 0))) = 2"
  using put_new_point_keeps_size_invariant
    [of "put Null (Point (Fin 1) (Fin 1))" "Point (Fin 0) (Fin 0)"]
  by (simp add: dbl_defs geo_defs tree_defs)

text \<open>
  Bulk construction stores every element of its input that has finite coordinates, and
  \<^verbatim>\<open>contains\<close> only ever answers true for a point that equals an element of the input
  within epsilon.
\<close>

theorem bulk_construction_membership:
  "(s \<in> set S \<and> finite_point s \<longrightarrow> contains (balancing Vertical S Null) s)
   \<and> (contains (balancing Vertical S Null) p \<longrightarrow> (\<exists>q\<in>set S. peq q p))"
  using balancing_stores [of s S Vertical Null]
    contains_sound [of "balancing Vertical S Null" p]
    set_points_of_balancing [of Vertical S Null]
  by auto

theorem bulk_construction_membership_witness:
  "Point (Fin 3) (Fin 4) \<in> set [Point (Fin 1) (Fin 2), Point (Fin 3) (Fin 4)]
   \<and> finite_point (Point (Fin 3) (Fin 4))
   \<and> contains (balancing Vertical [Point (Fin 1) (Fin 2), Point (Fin 3) (Fin 4)] Null)
       (Point (Fin 3) (Fin 4))
   \<and> peq (Point (Fin 3) (Fin 4)) (Point (Fin 3) (Fin 4))"
  using bulk_construction_membership
    [of "Point (Fin 3) (Fin 4)" "[Point (Fin 1) (Fin 2), Point (Fin 3) (Fin 4)]"
        "Point (Fin 3) (Fin 4)"]
  by (simp add: finite_point_def peq_def double_equal_Fin)

end
